theory Spec2Isabelle
  imports Main "HOL-Library.Multiset"
begin

section \<open>Blog post metadata\<close>

text \<open>
  A \<open>BlogPostMeta\<close> object as \<open>parsePostFile\<close> builds it. The fields read from the
  frontmatter are cast with \<open>as\<close>, which TypeScript erases: at run time they hold whatever
  value the frontmatter holds. Their type is therefore a parameter \<open>'v\<close>, the type of
  frontmatter values (among them \<open>undefined\<close>, the value of an absent key). \<open>slug\<close>,
  \<open>readingTime\<close> and \<open>locale\<close> are computed by the code itself (the field \<open>locale\<close>
  is named \<open>postLocale\<close> here).
\<close>

record 'v BlogPostMeta =
  title :: 'v
  description :: 'v
  slug :: string
  publishedAt :: 'v
  updatedAt :: 'v
  author :: 'v
  category :: 'v
  tags :: 'v
  featuredImage :: 'v
  readingTime :: nat
  difficulty :: 'v
  relatedPosts :: 'v
  postLocale :: string

section \<open>sortPostsByDate\<close>

text \<open>What a call can throw: the errors of the \<open>fs\<close> functions, the \<open>TypeError\<close> of a
  conversion, and whatever a library throws.\<close>

datatype error = ENOENT | ENOTDIR | EISDIR | TypeError | Thrown string

text \<open>
  \<open>new Date(v).getTime()\<close> is a function of the platform. It throws a \<open>TypeError\<close> when
  \<open>v\<close> is an object that has no primitive value; otherwise it yields the time value of
  the date, an integral number of milliseconds, or \<open>NaN\<close> when \<open>v\<close> does not parse as a
  date. It is a parameter \<open>timeOf\<close> of the model: \<open>Inl\<close> for a throw, \<open>Inr None\<close> for
  \<open>NaN\<close>. For a string it never throws.

  The comparator \<open>(a, b) => dateB - dateA\<close> converts \<open>a.publishedAt\<close> first. A time
  value is an integer of magnitude at most 8.64e15, so the difference of two of them,
  computed in double precision, has the sign of the exact difference, and the sort reads
  only the sign. \<open>NaN\<close> on either side makes the difference \<open>NaN\<close>.
\<close>

definition compareFn ::
  "('v \<Rightarrow> error + int option) \<Rightarrow> 'v BlogPostMeta \<Rightarrow> 'v BlogPostMeta \<Rightarrow> error + int option" where
  "compareFn timeOf a b =
     (case timeOf (publishedAt a) of
        Inl e \<Rightarrow> Inl e
      | Inr dateA \<Rightarrow>
          (case timeOf (publishedAt b) of
             Inl e \<Rightarrow> Inl e
           | Inr dateB \<Rightarrow>
               Inr (case dateB of
                      None \<Rightarrow> None
                    | Some tb \<Rightarrow> (case dateA of None \<Rightarrow> None | Some ta \<Rightarrow> Some (tb - ta)))))"

text \<open>
  \<open>Array.prototype.sort\<close> calls the comparator through \<open>SortCompare\<close>, which passes a
  throw on and replaces a \<open>NaN\<close> result by \<open>+0\<close>.
\<close>

definition SortCompare :: "('a \<Rightarrow> 'a \<Rightarrow> error + int option) \<Rightarrow> 'a \<Rightarrow> 'a \<Rightarrow> error + int" where
  "SortCompare comparefn x y =
     (case comparefn x y of
        Inl e \<Rightarrow> Inl e
      | Inr None \<Rightarrow> Inr 0
      | Inr (Some v) \<Rightarrow> Inr v)"

text \<open>
  \<open>Array.prototype.sort\<close> is the sort of the engine, V8 for Node. It copies the elements
  to a work array, sorts that, and writes it back; a throw of the comparator ends the
  sort. For an array of fewer than 64 elements the work array is sorted as follows, and
  the model follows these steps.

  \<open>CountAndMakeRun\<close> measures the run at the start of the array. It compares the second
  element with the first: the run is descending when the second compares strictly before
  the first, ascending otherwise. It extends the run while each next element, compared
  with the one before it, keeps that direction, and it reverses a descending run in
  place. \<open>countRun\<close> is its loop: the number of elements after the second that belong to
  the run.
\<close>

fun countRun :: "('a \<Rightarrow> 'a \<Rightarrow> error + int option) \<Rightarrow> bool \<Rightarrow> 'a \<Rightarrow> 'a list \<Rightarrow> error + nat" where
  "countRun comparefn isDescending previousElement [] = Inr 0"
| "countRun comparefn isDescending previousElement (currentElement # rest) =
     (case SortCompare comparefn currentElement previousElement of
        Inl e \<Rightarrow> Inl e
      | Inr order \<Rightarrow>
          if (if isDescending then 0 \<le> order else order < 0) then Inr 0
          else (case countRun comparefn isDescending currentElement rest of
                  Inl e \<Rightarrow> Inl e
                | Inr n \<Rightarrow> Inr (Suc n)))"

definition CountAndMakeRun :: "('a \<Rightarrow> 'a \<Rightarrow> error + int option) \<Rightarrow> 'a list \<Rightarrow> error + (nat \<times> 'a list)" where
  "CountAndMakeRun comparefn workArray =
     (case workArray of
        elementHigh # elementLow # rest \<Rightarrow>
          (case SortCompare comparefn elementLow elementHigh of
             Inl e \<Rightarrow> Inl e
           | Inr order \<Rightarrow>
               (case countRun comparefn (order < 0) elementLow rest of
                  Inl e \<Rightarrow> Inl e
                | Inr n \<Rightarrow>
                    Inr (2 + n,
                         if order < 0
                         then rev (take (2 + n) workArray) @ drop (2 + n) workArray
                         else workArray)))
      | _ \<Rightarrow> Inr (length workArray, workArray))"

text \<open>
  \<open>BinaryInsertionSort\<close> inserts each element after the run into the sorted part before
  it. The place is found by bisection: the pivot is compared with the middle element and
  goes left of it when it compares strictly before it, right of it otherwise.
  \<open>findInsertionPoint\<close> is the bisection loop, between \<open>left\<close> and \<open>right\<close>; the index it
  reads lies below \<open>right\<close>, which is at most the length of the sorted part.
\<close>

function findInsertionPoint ::
  "('a \<Rightarrow> 'a \<Rightarrow> error + int option) \<Rightarrow> 'a \<Rightarrow> 'a list \<Rightarrow> nat \<Rightarrow> nat \<Rightarrow> error + nat" where
  "findInsertionPoint comparefn pivot workArray left right =
     (if left < right
      then (case SortCompare comparefn pivot (workArray ! (left + (right - left) div 2)) of
              Inl e \<Rightarrow> Inl e
            | Inr order \<Rightarrow>
                if order < 0
                then findInsertionPoint comparefn pivot workArray left (left + (right - left) div 2)
                else findInsertionPoint comparefn pivot workArray (left + (right - left) div 2 + 1) right)
      else Inr left)"
  by pat_completeness auto
termination
  by (relation "measure (\<lambda>(comparefn, pivot, workArray, left, right). right - left)") auto

declare findInsertionPoint.simps [simp del]

fun BinaryInsertionSort :: "('a \<Rightarrow> 'a \<Rightarrow> error + int option) \<Rightarrow> 'a list \<Rightarrow> 'a list \<Rightarrow> error + 'a list" where
  "BinaryInsertionSort comparefn done [] = Inr done"
| "BinaryInsertionSort comparefn done (pivot # rest) =
     (case findInsertionPoint comparefn pivot done 0 (length done) of
        Inl e \<Rightarrow> Inl e
      | Inr left \<Rightarrow>
          BinaryInsertionSort comparefn (take left done @ pivot # drop left done) rest)"

text \<open>
  An array of fewer than two elements is returned as it is, with no call of the
  comparator. An array of 64 elements or more the engine cuts into runs of 32 to 64
  elements, each made by the two steps above, and merges them; when the comparator is
  consistent on the array (here: every date parses) the merged result is the stable
  sorted order, the one these two steps give on the whole array.
\<close>

definition array_sort :: "('a \<Rightarrow> 'a \<Rightarrow> error + int option) \<Rightarrow> 'a list \<Rightarrow> error + 'a list" where
  "array_sort comparefn items =
     (if length items < 2 then Inr items
      else (case CountAndMakeRun comparefn items of
              Inl e \<Rightarrow> Inl e
            | Inr (runLength, workArray) \<Rightarrow>
                BinaryInsertionSort comparefn (take runLength workArray) (drop runLength workArray)))"

text \<open>
  Two properties of a comparator on a set of elements. \<open>returnsOn\<close>: it throws on no
  pair. \<open>keyedOn\<close>: it returns, and what the sort reads of it is the difference of two
  keys, the key of the second argument minus the key of the first, as \<open>dateB - dateA\<close> is
  when both dates parse. \<open>descending k\<close>: a list is in descending order of the keys.
\<close>

definition returnsOn :: "('a \<Rightarrow> 'a \<Rightarrow> error + int option) \<Rightarrow> 'a set \<Rightarrow> bool" where
  "returnsOn c S = (\<forall>x\<in>S. \<forall>y\<in>S. \<exists>v. c x y = Inr v)"

definition keyedOn :: "('a \<Rightarrow> 'a \<Rightarrow> error + int option) \<Rightarrow> ('a \<Rightarrow> int) \<Rightarrow> 'a set \<Rightarrow> bool" where
  "keyedOn c k S = (\<forall>x\<in>S. \<forall>y\<in>S. SortCompare c x y = Inr (k y - k x))"

abbreviation descending :: "('a \<Rightarrow> int) \<Rightarrow> 'a list \<Rightarrow> bool" where
  "descending k \<equiv> sorted_wrt (\<lambda>a b. k b \<le> k a)"

text \<open>
  \<open>[...posts].sort(...)\<close> on the level of values: the spread copies the elements, the
  sort orders the copy or throws.
\<close>

definition sortPostsByDate ::
  "('v \<Rightarrow> error + int option) \<Rightarrow> 'v BlogPostMeta list \<Rightarrow> error + 'v BlogPostMeta list" where
  "sortPostsByDate timeOf posts = array_sort (compareFn timeOf) posts"

text \<open>
  \<open>validDate timeOf p\<close>: \<open>p.publishedAt\<close> parses as a date. \<open>convertible timeOf p\<close>:
  \<open>new Date(p.publishedAt)\<close> does not throw, as for every string. \<open>timeValue\<close> is the time
  value of a date that parses.
  \<open>dateGe timeOf a b\<close>: the date parsed from \<open>a.publishedAt\<close> is greater than or equal to
  the one parsed from \<open>b.publishedAt\<close>, as the \<open>>=\<close> of JavaScript on the two time values
  (false when either is \<open>NaN\<close>).
\<close>

definition validDate :: "('v \<Rightarrow> error + int option) \<Rightarrow> 'v BlogPostMeta \<Rightarrow> bool" where
  "validDate timeOf p = (case timeOf (publishedAt p) of Inr (Some t) \<Rightarrow> True | _ \<Rightarrow> False)"

definition convertible :: "('v \<Rightarrow> error + int option) \<Rightarrow> 'v BlogPostMeta \<Rightarrow> bool" where
  "convertible timeOf p = (case timeOf (publishedAt p) of Inl e \<Rightarrow> False | Inr t \<Rightarrow> True)"

definition timeValue :: "('v \<Rightarrow> error + int option) \<Rightarrow> 'v BlogPostMeta \<Rightarrow> int" where
  "timeValue timeOf p = (case timeOf (publishedAt p) of Inr (Some t) \<Rightarrow> t | _ \<Rightarrow> 0)"

definition dateGe :: "('v \<Rightarrow> error + int option) \<Rightarrow> 'v BlogPostMeta \<Rightarrow> 'v BlogPostMeta \<Rightarrow> bool" where
  "dateGe timeOf a b =
     (case timeOf (publishedAt a) of
        Inr (Some ta) \<Rightarrow>
          (case timeOf (publishedAt b) of Inr (Some tb) \<Rightarrow> tb \<le> ta | _ \<Rightarrow> False)
      | _ \<Rightarrow> False)"

text \<open>
  The same function on the level of references, for what it does to the caller's array.
  A store holds the array objects; a reference is an index into it. The spread
  \<open>[...posts]\<close> allocates a new array with the elements of \<open>posts\<close>;
  \<open>Array.prototype.sort\<close> orders its receiver in place and returns it, or throws and
  leaves it as it was. The result is the store after the call and the reference returned
  or the error thrown. A reference that points outside the store has no counterpart in
  JavaScript; the model answers \<open>None\<close>.
\<close>

type_synonym 'a store = "'a list list"

definition spread :: "'a store \<Rightarrow> nat \<Rightarrow> ('a store \<times> nat) option" where
  "spread st a = (if a < length st then Some (st @ [st ! a], length st) else None)"

definition sort_in_place ::
  "('a \<Rightarrow> 'a \<Rightarrow> error + int option) \<Rightarrow> 'a store \<Rightarrow> nat \<Rightarrow> ('a store \<times> (error + nat)) option" where
  "sort_in_place comparefn st a =
     (if a < length st
      then (case array_sort comparefn (st ! a) of
              Inl e \<Rightarrow> Some (st, Inl e)
            | Inr items \<Rightarrow> Some (st[a := items], Inr a))
      else None)"

definition sortPostsByDate_ref ::
  "('v \<Rightarrow> error + int option) \<Rightarrow> 'v BlogPostMeta store \<Rightarrow> nat \<Rightarrow>
     ('v BlogPostMeta store \<times> (error + nat)) option" where
  "sortPostsByDate_ref timeOf st posts =
     (case spread st posts of
        None \<Rightarrow> None
      | Some (st1, copy) \<Rightarrow> sort_in_place (compareFn timeOf) st1 copy)"

section \<open>The file system and the path module\<close>

text \<open>
  The snapshot of the file system that one call sees: the working directory of the
  process and what stands at each absolute path, a file with its text or a directory
  with the names \<open>readdirSync\<close> lists, in that order. The \<open>fs\<close> functions throw; a throw
  is the \<open>Inl\<close> of a sum.
\<close>

datatype node = File string | Dir "string list"

record filesystem =
  cwd :: string
  nodes :: "string \<rightharpoonup> node"

definition existsSync :: "filesystem \<Rightarrow> string \<Rightarrow> bool" where
  "existsSync fs p = (nodes fs p \<noteq> None)"

definition readdirSync :: "filesystem \<Rightarrow> string \<Rightarrow> error + string list" where
  "readdirSync fs p =
     (case nodes fs p of
        None \<Rightarrow> Inl ENOENT
      | Some (File fileContent) \<Rightarrow> Inl ENOTDIR
      | Some (Dir names) \<Rightarrow> Inr names)"

definition readFileSync :: "filesystem \<Rightarrow> string \<Rightarrow> error + string" where
  "readFileSync fs p =
     (case nodes fs p of
        None \<Rightarrow> Inl ENOENT
      | Some (Dir names) \<Rightarrow> Inl EISDIR
      | Some (File fileContent) \<Rightarrow> Inr fileContent)"

text \<open>
  \<open>path.join\<close> of two segments. The segments joined here are the working directory,
  the fixed base path, a locale code and the name of a directory entry, so nothing is
  there to normalise but the separator between them.
\<close>

definition path_join :: "string \<Rightarrow> string \<Rightarrow> string" where
  "path_join a b =
     (if a = [] then b
      else if b = [] then a
      else if last a = CHR ''/'' then a @ b
      else a @ ''/'' @ b)"

definition endsWith :: "string \<Rightarrow> string \<Rightarrow> bool" where
  "endsWith s searchString =
     (length searchString \<le> length s \<and> drop (length s - length searchString) s = searchString)"

text \<open>
  \<open>path.basename(p, suffix)\<close>: the last portion of the path, trailing separators
  ignored, without the suffix when it ends with it. As with the \<open>basename\<close> command of
  POSIX, a last portion that is the suffix itself is returned whole:
  \<open>path.basename('aaa/bbb', 'bbb')\<close> is \<open>'bbb'\<close>.
\<close>

definition basename :: "string \<Rightarrow> string \<Rightarrow> string" where
  "basename p suffix =
     (let name = rev (takeWhile (\<lambda>c. c \<noteq> CHR ''/'') (dropWhile (\<lambda>c. c = CHR ''/'') (rev p)))
      in if p = suffix then []
         else if endsWith name suffix \<and> name \<noteq> suffix
           then take (length name - length suffix) name
         else name)"

section \<open>getBlogPosts\<close>

definition CONTENT_BASE_PATH :: string where
  "CONTENT_BASE_PATH = ''features/Blog/content/posts''"

definition getPostsDirectory :: "filesystem \<Rightarrow> string \<Rightarrow> string" where
  "getPostsDirectory fs loc = path_join (path_join (cwd fs) CONTENT_BASE_PATH) loc"

text \<open>
  What \<open>parsePostFile\<close> imports: \<open>matter\<close> of the package gray-matter, which splits a
  file's text into the frontmatter and the content and throws on a malformed
  frontmatter, and \<open>validateFrontmatter\<close> and \<open>calculateReadingTime\<close> of this
  repository, whose files are not among the sources. They are parameters of the model.
  A frontmatter is read by key; an absent key yields \<open>undefined\<close>, a value of \<open>'v\<close>.
\<close>

record validation =
  success :: bool
  missingFields :: "string list"

record 'v library =
  matter :: "string \<Rightarrow> error + ((string \<Rightarrow> 'v) \<times> string)"
  validateFrontmatter :: "(string \<Rightarrow> 'v) \<Rightarrow> validation"
  calculateReadingTime :: "string \<Rightarrow> nat"

text \<open>The two messages \<open>parsePostFile\<close> writes with \<open>console.error\<close>.\<close>

datatype diagnostic =
  InvalidFrontmatter string "string list"
| ErrorParsing string error

text \<open>
  \<open>parsePostFile\<close> returns the object or \<open>null\<close>, and the messages it has logged. The
  \<open>try\<close> block covers the read and the parse; its \<open>catch\<close> logs and returns \<open>null\<close>.
\<close>

definition parsePostFile ::
  "'v library \<Rightarrow> filesystem \<Rightarrow> string \<Rightarrow> string \<Rightarrow> 'v BlogPostMeta option \<times> diagnostic list" where
  "parsePostFile lib fs filePath loc =
     (case readFileSync fs filePath of
        Inl e \<Rightarrow> (None, [ErrorParsing filePath e])
      | Inr fileContent \<Rightarrow>
          (case matter lib fileContent of
             Inl e \<Rightarrow> (None, [ErrorParsing filePath e])
           | Inr (frontmatter, content) \<Rightarrow>
               (let validation = validateFrontmatter lib frontmatter in
                if \<not> success validation
                then (None, [InvalidFrontmatter filePath (missingFields validation)])
                else
                  (let slug = basename filePath ''.mdx'';
                       readingTime = calculateReadingTime lib content
                   in (Some \<lparr> title = frontmatter ''title'',
                              description = frontmatter ''description'',
                              slug = slug,
                              publishedAt = frontmatter ''publishedAt'',
                              updatedAt = frontmatter ''updatedAt'',
                              author = frontmatter ''author'',
                              category = frontmatter ''category'',
                              tags = frontmatter ''tags'',
                              featuredImage = frontmatter ''featuredImage'',
                              readingTime = readingTime,
                              difficulty = frontmatter ''difficulty'',
                              relatedPosts = frontmatter ''relatedPosts'',
                              postLocale = loc \<rparr>, [])))))"

text \<open>
  \<open>getBlogPosts\<close> returns what it has logged and either the sorted posts or what was
  thrown. Nothing catches what \<open>readdirSync\<close> throws, nor what the comparator of
  \<open>sortPostsByDate\<close> throws: the sort runs outside the \<open>try\<close> block of \<open>parsePostFile\<close>.
\<close>

definition getBlogPosts ::
  "'v library \<Rightarrow> ('v \<Rightarrow> error + int option) \<Rightarrow> filesystem \<Rightarrow> string \<Rightarrow>
     diagnostic list \<times> (error + 'v BlogPostMeta list)" where
  "getBlogPosts lib timeOf fs loc =
     (let postsDirectory = getPostsDirectory fs loc in
      if \<not> existsSync fs postsDirectory then ([], Inr [])
      else
        (case readdirSync fs postsDirectory of
           Inl e \<Rightarrow> ([], Inl e)
         | Inr entries \<Rightarrow>
             (let files = filter (\<lambda>file. endsWith file ''.mdx'') entries;
                  parsed = map (\<lambda>file. parsePostFile lib fs (path_join postsDirectory file) loc) files;
                  posts = map the (filter (\<lambda>post. post \<noteq> None) (map fst parsed))
              in (concat (map snd parsed), sortPostsByDate timeOf posts))))"

text \<open>
  A file parses and passes the validation: it can be read, \<open>matter\<close> accepts its text and
  \<open>validateFrontmatter\<close> reports success.
\<close>

definition fileOk :: "'v library \<Rightarrow> filesystem \<Rightarrow> string \<Rightarrow> bool" where
  "fileOk lib fs filePath =
     (case readFileSync fs filePath of
        Inl e \<Rightarrow> False
      | Inr fileContent \<Rightarrow>
          (case matter lib fileContent of
             Inl e \<Rightarrow> False
           | Inr (frontmatter, content) \<Rightarrow> success (validateFrontmatter lib frontmatter)))"

fun diagnosticPath :: "diagnostic \<Rightarrow> string" where
  "diagnosticPath (InvalidFrontmatter filePath missing) = filePath"
| "diagnosticPath (ErrorParsing filePath e) = filePath"

text \<open>The \<open>.mdx\<close> entries of a locale's directory, as paths, in the order of the listing.\<close>

definition postFiles :: "filesystem \<Rightarrow> string \<Rightarrow> string list \<Rightarrow> string list" where
  "postFiles fs loc entries =
     map (path_join (getPostsDirectory fs loc)) (filter (\<lambda>file. endsWith file ''.mdx'') entries)"

text \<open>
  The objects of the files of a locale's directory that parse and pass the validation,
  in the order of the listing; none when the directory cannot be listed.
\<close>

definition parsedPosts :: "'v library \<Rightarrow> filesystem \<Rightarrow> string \<Rightarrow> 'v BlogPostMeta list" where
  "parsedPosts lib fs loc =
     (case readdirSync fs (getPostsDirectory fs loc) of
        Inl e \<Rightarrow> []
      | Inr entries \<Rightarrow>
          map (\<lambda>filePath. the (fst (parsePostFile lib fs filePath loc)))
            (filter (fileOk lib fs) (postFiles fs loc entries)))"

section \<open>getBlogPost\<close>

text \<open>
  The fallback locale: the default of the \<open>locale\<close> parameter of \<open>getBlogPosts\<close>, and the
  locale the tests of \<open>getBlogPost\<close> expect a missing translation to fall back to.
\<close>

definition DEFAULT_LOCALE :: string where
  "DEFAULT_LOCALE = ''en''"

text \<open>
  The file of a post: each file name, minus the extension, is the post's slug.
\<close>

definition postPath :: "filesystem \<Rightarrow> string \<Rightarrow> string \<Rightarrow> string" where
  "postPath fs loc postSlug = path_join (getPostsDirectory fs loc) (postSlug @ ''.mdx'')"

text \<open>
  Modelled from the spec: \<open>postExists\<close> of \<open>lib/getBlogPost\<close>, a file that is not among
  the sources (its tests are). The spec: a boolean existence check against the locale
  directory only, no fallback.
\<close>

definition postExists :: "filesystem \<Rightarrow> string \<Rightarrow> string \<Rightarrow> bool" where
  "postExists fs loc postSlug = existsSync fs (postPath fs loc postSlug)"

text \<open>
  Modelled from the spec: \<open>getBlogPost\<close> of \<open>lib/getBlogPost\<close>, a file that is not among
  the sources (its tests are). The spec: it checks whether a post with the given slug
  exists in the requested locale's directory; if yes, it parses it and returns it with its
  locale field set to the requested locale; if no, it checks the default locale's
  directory, and if found there returns it with locale set to default; if found in
  neither, it returns null. Parsing is \<open>parsePostFile\<close>, whose \<open>null\<close> for a file that does
  not parse is passed on; the spec is silent on that case.
\<close>

definition getBlogPost :: "'v library \<Rightarrow> filesystem \<Rightarrow> string \<Rightarrow> string \<Rightarrow> 'v BlogPostMeta option" where
  "getBlogPost lib fs postSlug loc =
     (if postExists fs loc postSlug
      then map_option (\<lambda>post. post\<lparr>postLocale := loc\<rparr>)
             (fst (parsePostFile lib fs (postPath fs loc postSlug) loc))
      else if postExists fs DEFAULT_LOCALE postSlug
      then map_option (\<lambda>post. post\<lparr>postLocale := DEFAULT_LOCALE\<rparr>)
             (fst (parsePostFile lib fs (postPath fs DEFAULT_LOCALE postSlug) DEFAULT_LOCALE))
      else None)"

section \<open>Sample content\<close>

text \<open>
  A concrete instance of the parameters, for evaluating the functions: frontmatter
  values that are strings, lists of strings or mappings, six files, and snapshots of a
  content directory. A listing gives the names in byte order.
\<close>

datatype jsval = Undefined | Str string | StrList "string list" | Mapping "(string \<times> jsval) list"

definition januaryText :: string where
  \<open>januaryText = ''---\<newline>title: "January"\<newline>description: "Resolutions"\<newline>publishedAt: "2024-01-01"\<newline>author: "Aiko"\<newline>category: "hiragana"\<newline>tags: ["kana"]\<newline>---\<newline>Happy new year.\<newline>''\<close>

definition laterText :: string where
  \<open>laterText = ''---\<newline>title: "Later"\<newline>description: "Unfinished"\<newline>publishedAt: "soon"\<newline>author: "Aiko"\<newline>category: "hiragana"\<newline>tags: ["kana"]\<newline>---\<newline>To be written.\<newline>''\<close>

definition summerText :: string where
  \<open>summerText = ''---\<newline>title: "Summer"\<newline>description: "Holidays"\<newline>publishedAt: "2024-06-01"\<newline>author: "Aiko"\<newline>category: "katakana"\<newline>tags: ["kana"]\<newline>---\<newline>Summer is here.\<newline>''\<close>

definition brokenText :: string where
  \<open>brokenText = ''---\<newline>title: "Broken"\<newline>description: "No author"\<newline>publishedAt: "2024-03-01"\<newline>category: "hiragana"\<newline>tags: ["kana"]\<newline>---\<newline>Who wrote this?\<newline>''\<close>

definition garbledText :: string where
  \<open>garbledText = ''---\<newline>title: [\<newline>---\<newline>Not a frontmatter.\<newline>''\<close>

definition oddText :: string where
  \<open>oddText = ''---\<newline>title: "Odd"\<newline>description: "A date that is a mapping"\<newline>publishedAt:\<newline>  toString: "never"\<newline>author: "Aiko"\<newline>category: "hiragana"\<newline>tags: ["kana"]\<newline>---\<newline>When was this?\<newline>''\<close>

text \<open>A frontmatter object from its entries; a key it does not have reads \<open>undefined\<close>.\<close>

definition frontmatterOf :: "(string \<times> jsval) list \<Rightarrow> string \<Rightarrow> jsval" where
  "frontmatterOf entries key = (case map_of entries key of None \<Rightarrow> Undefined | Some v \<Rightarrow> v)"

text \<open>
  What \<open>matter\<close> returns on the sample files, as a table; on \<open>garbledText\<close>, whose
  frontmatter is not YAML, it throws.
\<close>

definition sample_matter :: "string \<Rightarrow> error + ((string \<Rightarrow> jsval) \<times> string)" where
  "sample_matter fileContent =
     (if fileContent = januaryText then
        Inr (frontmatterOf
               [(''title'', Str ''January''), (''description'', Str ''Resolutions''),
                (''publishedAt'', Str ''2024-01-01''), (''author'', Str ''Aiko''),
                (''category'', Str ''hiragana''), (''tags'', StrList [''kana''])],
             ''Happy new year.\<newline>'')
      else if fileContent = laterText then
        Inr (frontmatterOf
               [(''title'', Str ''Later''), (''description'', Str ''Unfinished''),
                (''publishedAt'', Str ''soon''), (''author'', Str ''Aiko''),
                (''category'', Str ''hiragana''), (''tags'', StrList [''kana''])],
             ''To be written.\<newline>'')
      else if fileContent = summerText then
        Inr (frontmatterOf
               [(''title'', Str ''Summer''), (''description'', Str ''Holidays''),
                (''publishedAt'', Str ''2024-06-01''), (''author'', Str ''Aiko''),
                (''category'', Str ''katakana''), (''tags'', StrList [''kana''])],
             ''Summer is here.\<newline>'')
      else if fileContent = brokenText then
        Inr (frontmatterOf
               [(''title'', Str ''Broken''), (''description'', Str ''No author''),
                (''publishedAt'', Str ''2024-03-01''),
                (''category'', Str ''hiragana''), (''tags'', StrList [''kana''])],
             ''Who wrote this?\<newline>'')
      else if fileContent = oddText then
        Inr (frontmatterOf
               [(''title'', Str ''Odd''), (''description'', Str ''A date that is a mapping''),
                (''publishedAt'', Mapping [(''toString'', Str ''never'')]), (''author'', Str ''Aiko''),
                (''category'', Str ''hiragana''), (''tags'', StrList [''kana''])],
             ''When was this?\<newline>'')
      else Inl (Thrown ''YAMLException''))"

definition REQUIRED_FIELDS :: "string list" where
  "REQUIRED_FIELDS = [''title'', ''description'', ''publishedAt'', ''author'', ''category'', ''tags'']"

text \<open>
  Modelled from the spec: \<open>validateFrontmatter\<close> of \<open>lib/validateFrontmatter\<close>, a file
  that is not among the sources, on the sample values. The spec: for each required field
  (title, description, publishedAt, author, category, tags) it flags the field missing
  if it is absent or its value is empty or undefined; it validates nothing beyond
  presence.
\<close>

definition sample_validateFrontmatter :: "(string \<Rightarrow> jsval) \<Rightarrow> validation" where
  "sample_validateFrontmatter frontmatter =
     (let missing = filter (\<lambda>field. frontmatter field = Undefined \<or> frontmatter field = Str [])
                      REQUIRED_FIELDS
      in \<lparr> success = (missing = []), missingFields = missing \<rparr>)"

text \<open>
  The reading time of the sample contents, a few words each: the floor of one minute.
\<close>

definition sample_library :: "jsval library" where
  "sample_library =
     \<lparr> matter = sample_matter,
       validateFrontmatter = sample_validateFrontmatter,
       calculateReadingTime = (\<lambda>content. 1) \<rparr>"

text \<open>
  \<open>new Date(s).getTime()\<close> on the strings that stand for \<open>publishedAt\<close> in the samples:
  the three dates parse, to midnight UTC of the day; \<open>"soon"\<close> gives \<open>NaN\<close>.
\<close>

definition sample_parse :: "string \<Rightarrow> int option" where
  "sample_parse s =
     (if s = ''2024-01-01'' then Some 1704067200000
      else if s = ''2024-03-01'' then Some 1709251200000
      else if s = ''2024-06-01'' then Some 1717200000000
      else None)"

text \<open>
  \<open>new Date(v).getTime()\<close> on the sample values. A string is parsed. A mapping is an
  object: its conversion to a primitive calls \<open>valueOf\<close>, which returns the object, and
  then \<open>toString\<close>; a mapping with a key \<open>toString\<close> holds a value there that cannot be
  called, no primitive is found, and the conversion throws \<open>TypeError\<close>. Without that
  key the object converts to a string that is no date. An array converts to its
  elements joined by commas. \<open>undefined\<close> gives \<open>NaN\<close>.
\<close>

definition sample_timeOf :: "jsval \<Rightarrow> error + int option" where
  "sample_timeOf v =
     (case v of
        Undefined \<Rightarrow> Inr None
      | Str s \<Rightarrow> Inr (sample_parse s)
      | StrList items \<Rightarrow> (case items of [s] \<Rightarrow> Inr (sample_parse s) | _ \<Rightarrow> Inr None)
      | Mapping entries \<Rightarrow>
          if ''toString'' \<in> set (map fst entries) then Inl TypeError else Inr None)"

definition sample_root :: string where
  "sample_root = ''/app/features/Blog/content/posts''"

text \<open>The main snapshot: an English and a Spanish folder, no Japanese one.\<close>

definition sample_fs :: filesystem where
  "sample_fs =
     \<lparr> cwd = ''/app'',
       nodes = map_of
         [(sample_root @ ''/en'',
             Dir [''README.txt'', ''january.mdx'', ''later.mdx'', ''summer.mdx'']),
          (sample_root @ ''/en/README.txt'', File ''Posts go here.''),
          (sample_root @ ''/en/january.mdx'', File januaryText),
          (sample_root @ ''/en/later.mdx'', File laterText),
          (sample_root @ ''/en/summer.mdx'', File summerText),
          (sample_root @ ''/es'',
             Dir [''broken.mdx'', ''garbled.mdx'', ''january.mdx'', ''summer.mdx'']),
          (sample_root @ ''/es/broken.mdx'', File brokenText),
          (sample_root @ ''/es/garbled.mdx'', File garbledText),
          (sample_root @ ''/es/january.mdx'', File januaryText),
          (sample_root @ ''/es/summer.mdx'', File summerText)] \<rparr>"

text \<open>A snapshot whose English folder holds the post with the mapping for a date.\<close>

definition odd_fs :: filesystem where
  "odd_fs =
     \<lparr> cwd = ''/app'',
       nodes = map_of
         [(sample_root @ ''/en'', Dir [''odd.mdx'', ''summer.mdx'']),
          (sample_root @ ''/en/odd.mdx'', File oddText),
          (sample_root @ ''/en/summer.mdx'', File summerText)] \<rparr>"

text \<open>A snapshot whose English folder holds one post, in a file named \<open>.mdx\<close>.\<close>

definition dot_fs :: filesystem where
  "dot_fs =
     \<lparr> cwd = ''/app'',
       nodes = map_of
         [(sample_root @ ''/en'', Dir [''.mdx'']),
          (sample_root @ ''/en/.mdx'', File summerText)] \<rparr>"

text \<open>The objects \<open>parsePostFile\<close> builds from the sample files.\<close>

definition samplePost :: "string \<Rightarrow> string \<Rightarrow> string \<Rightarrow> jsval \<Rightarrow> string \<Rightarrow> string \<Rightarrow> jsval BlogPostMeta" where
  "samplePost t d s date cat loc =
     \<lparr> title = Str t, description = Str d, slug = s, publishedAt = date,
       updatedAt = Undefined, author = Str ''Aiko'', category = Str cat,
       tags = StrList [''kana''], featuredImage = Undefined, readingTime = 1,
       difficulty = Undefined, relatedPosts = Undefined, postLocale = loc \<rparr>"

definition januaryPost :: "string \<Rightarrow> jsval BlogPostMeta" where
  "januaryPost loc =
     samplePost ''January'' ''Resolutions'' ''january'' (Str ''2024-01-01'') ''hiragana'' loc"

definition laterPost :: "string \<Rightarrow> jsval BlogPostMeta" where
  "laterPost loc = samplePost ''Later'' ''Unfinished'' ''later'' (Str ''soon'') ''hiragana'' loc"

definition summerPost :: "string \<Rightarrow> jsval BlogPostMeta" where
  "summerPost loc = samplePost ''Summer'' ''Holidays'' ''summer'' (Str ''2024-06-01'') ''katakana'' loc"

definition oddPost :: "string \<Rightarrow> jsval BlogPostMeta" where
  "oddPost loc =
     samplePost ''Odd'' ''A date that is a mapping'' ''odd''
       (Mapping [(''toString'', Str ''never'')]) ''hiragana'' loc"


text \<open>A post of a given slug and date, for arrays passed to \<open>sortPostsByDate\<close> directly.\<close>

definition datedPost :: "string \<Rightarrow> string \<Rightarrow> jsval BlogPostMeta" where
  "datedPost s date = samplePost ''Post'' ''Sample'' s (Str date) ''hiragana'' ''en''"

section \<open>Properties of the sort\<close>

subsection \<open>The result is a permutation\<close>

lemma mset_take_drop: "mset (take l xs) + mset (drop l xs) = mset xs"
  by (metis append_take_drop_id mset_append)

lemma countRun_le: "countRun c d p rest = Inr n \<Longrightarrow> n \<le> length rest"
  by (induction rest arbitrary: p n) (auto split: sum.splits if_splits)

lemma CountAndMakeRun_Inr:
  assumes "CountAndMakeRun c (hi # lo # rest) = Inr (n, w)"
  obtains order m where
    "SortCompare c lo hi = Inr order" "countRun c (order < 0) lo rest = Inr m" "n = 2 + m"
    "w = (if order < 0 then rev (take n (hi # lo # rest)) @ drop n (hi # lo # rest)
          else hi # lo # rest)"
proof (cases "SortCompare c lo hi")
  case (Inl e)
  with assms show ?thesis by (simp add: CountAndMakeRun_def)
next
  case (Inr order)
  show ?thesis
  proof (cases "countRun c (order < 0) lo rest")
    case (Inl e)
    with Inr assms show ?thesis by (simp add: CountAndMakeRun_def)
  next
    case m: (Inr m)
    from assms have "Inr (2 + m,
                (if order < 0 then rev (take (2 + m) (hi # lo # rest)) @ drop (2 + m) (hi # lo # rest)
                 else hi # lo # rest)) = (Inr (n, w) :: error + nat \<times> 'a list)"
      by (simp only: CountAndMakeRun_def list.case Inr m sum.case)
    then have "n = 2 + m"
      and "w = (if order < 0 then rev (take (2 + m) (hi # lo # rest)) @ drop (2 + m) (hi # lo # rest)
                else hi # lo # rest)"
      by blast+
    with Inr m that show ?thesis by blast
  qed
qed

lemma CountAndMakeRun_short: "length xs < 2 \<Longrightarrow> CountAndMakeRun c xs = Inr (length xs, xs)"
  by (cases xs; cases "tl xs") (auto simp: CountAndMakeRun_def)

lemma CountAndMakeRun_mset:
  assumes "CountAndMakeRun c xs = Inr (n, w)"
  shows "mset w = mset xs" and "n \<le> length xs"
proof -
  have "mset w = mset xs \<and> n \<le> length xs"
  proof (cases "length xs < 2")
    case True
    with assms show ?thesis by (auto simp: CountAndMakeRun_short)
  next
    case False
    then obtain hi lo rest where xs: "xs = hi # lo # rest"
      by (cases xs; cases "tl xs") auto
    from assms [unfolded xs] obtain order m where
      "SortCompare c lo hi = Inr order" and
      m: "countRun c (order < 0) lo rest = Inr m" and n: "n = 2 + m" and
      w: "w = (if order < 0 then rev (take n xs) @ drop n xs else xs)"
      unfolding xs by (rule CountAndMakeRun_Inr)
    have "mset w = mset xs"
      unfolding w by (simp add: mset_take_drop)
    moreover from countRun_le [OF m] n xs have "n \<le> length xs"
      by simp
    ultimately show ?thesis by simp
  qed
  then show "mset w = mset xs" and "n \<le> length xs" by simp_all
qed

lemma mset_insert_at: "mset (take l xs @ x # drop l xs) = add_mset x (mset xs)"
  by (simp add: mset_take_drop)

lemma BinaryInsertionSort_mset:
  "BinaryInsertionSort c pre rest = Inr ys \<Longrightarrow> mset ys = mset pre + mset rest"
proof (induction rest arbitrary: pre)
  case Nil
  then show ?case by simp
next
  case (Cons pivot rest)
  then obtain l where "BinaryInsertionSort c (take l pre @ pivot # drop l pre) rest = Inr ys"
    by (auto split: sum.splits)
  from Cons.IH [OF this] show ?case
    unfolding mset_insert_at by simp
qed

lemma array_sort_mset:
  assumes "array_sort c xs = Inr ys"
  shows "mset ys = mset xs"
proof (cases "length xs < 2")
  case True
  with assms show ?thesis by (simp add: array_sort_def)
next
  case False
  with assms obtain n w where r: "CountAndMakeRun c xs = Inr (n, w)"
    and b: "BinaryInsertionSort c (take n w) (drop n w) = Inr ys"
    by (auto simp: array_sort_def split: sum.splits)
  from BinaryInsertionSort_mset [OF b] have "mset ys = mset w"
    by (simp add: mset_take_drop)
  with CountAndMakeRun_mset(1) [OF r] show ?thesis by simp
qed

lemma array_sort_set: "array_sort c xs = Inr ys \<Longrightarrow> set ys = set xs"
  by (metis array_sort_mset set_mset_mset)

lemma array_sort_length: "array_sort c xs = Inr ys \<Longrightarrow> length ys = length xs"
  by (metis array_sort_mset size_mset)

lemma array_sort_short: "length xs \<le> 1 \<Longrightarrow> array_sort c xs = Inr xs"
  by (simp add: array_sort_def)

subsection \<open>The sort returns when the comparator does\<close>

lemma returnsOn_SortCompare:
  "returnsOn c S \<Longrightarrow> x \<in> S \<Longrightarrow> y \<in> S \<Longrightarrow> \<exists>v. SortCompare c x y = Inr v"
  by (fastforce simp: returnsOn_def SortCompare_def split: sum.splits option.splits)

lemma countRun_returns:
  "returnsOn c S \<Longrightarrow> p \<in> S \<Longrightarrow> set rest \<subseteq> S \<Longrightarrow> \<exists>n. countRun c d p rest = Inr n"
proof (induction rest arbitrary: p)
  case Nil
  then show ?case by simp
next
  case (Cons cur rest)
  from returnsOn_SortCompare [OF Cons.prems(1), of cur p] Cons.prems
  obtain v where v: "SortCompare c cur p = Inr v" by auto
  from Cons.IH [of cur] Cons.prems obtain n where "countRun c d cur rest = Inr n" by auto
  with v show ?case by simp
qed

lemma CountAndMakeRun_returns:
  assumes "returnsOn c S" "set xs \<subseteq> S"
  shows "\<exists>n w. CountAndMakeRun c xs = Inr (n, w)"
proof (cases xs)
  case Nil
  then show ?thesis by (simp add: CountAndMakeRun_def)
next
  case (Cons hi ys)
  show ?thesis
  proof (cases ys)
    case Nil
    with Cons show ?thesis by (simp add: CountAndMakeRun_def)
  next
    case (Cons lo rest)
    with \<open>xs = hi # ys\<close> assms have mem: "hi \<in> S" "lo \<in> S" "set rest \<subseteq> S" by auto
    from returnsOn_SortCompare [OF assms(1) mem(2) mem(1)]
    obtain v where v: "SortCompare c lo hi = Inr v" by auto
    from countRun_returns [OF assms(1) mem(2) mem(3)]
    obtain n where "countRun c (v < 0) lo rest = Inr n" by auto
    with v Cons \<open>xs = hi # ys\<close> show ?thesis by (simp add: CountAndMakeRun_def)
  qed
qed

lemma findInsertionPoint_returns:
  "returnsOn c S \<Longrightarrow> pivot \<in> S \<Longrightarrow> set a \<subseteq> S \<Longrightarrow> right \<le> length a \<Longrightarrow>
     \<exists>l. findInsertionPoint c pivot a left right = Inr l"
proof (induction c pivot a left right rule: findInsertionPoint.induct)
  case (1 c pivot a left right)
  show ?case
  proof (cases "left < right")
    case False
    then show ?thesis by (simp add: findInsertionPoint.simps)
  next
    case True
    let ?mid = "left + (right - left) div 2"
    from True have mid: "?mid < right" by auto
    with "1.prems" have "a ! ?mid \<in> S" by (auto simp: subset_iff)
    from returnsOn_SortCompare [OF "1.prems"(1,2) this]
    obtain v where v: "SortCompare c pivot (a ! ?mid) = Inr v" by auto
    show ?thesis
    proof (cases "v < 0")
      case neg: True
      from "1.IH"(1) [OF True v neg "1.prems"(1,2,3)] mid "1.prems"(4)
      obtain l where "findInsertionPoint c pivot a left ?mid = Inr l" by auto
      with True v neg show ?thesis
        by (subst findInsertionPoint.simps) simp
    next
      case nonneg: False
      from "1.IH"(2) [OF True v nonneg "1.prems"]
      obtain l where "findInsertionPoint c pivot a (?mid + 1) right = Inr l" by auto
      with True v nonneg show ?thesis
        by (subst findInsertionPoint.simps) simp
    qed
  qed
qed

lemma BinaryInsertionSort_returns:
  "returnsOn c S \<Longrightarrow> set pre \<subseteq> S \<Longrightarrow> set rest \<subseteq> S \<Longrightarrow> \<exists>ys. BinaryInsertionSort c pre rest = Inr ys"
proof (induction rest arbitrary: pre)
  case Nil
  then show ?case by simp
next
  case (Cons pivot rest)
  from findInsertionPoint_returns [OF Cons.prems(1), of pivot pre "length pre" 0] Cons.prems
  obtain l where l: "findInsertionPoint c pivot pre 0 (length pre) = Inr l" by auto
  have "set (take l pre @ pivot # drop l pre) \<subseteq> S"
    using Cons.prems by (auto dest: in_set_takeD in_set_dropD)
  from Cons.IH [OF Cons.prems(1) this] Cons.prems
  obtain ys where "BinaryInsertionSort c (take l pre @ pivot # drop l pre) rest = Inr ys" by auto
  with l show ?case by simp
qed

lemma array_sort_returns:
  assumes "returnsOn c (set xs)"
  shows "\<exists>ys. array_sort c xs = Inr ys"
proof (cases "length xs < 2")
  case True
  then show ?thesis by (simp add: array_sort_def)
next
  case False
  from CountAndMakeRun_returns [OF assms subset_refl]
  obtain n w where r: "CountAndMakeRun c xs = Inr (n, w)" by auto
  from CountAndMakeRun_mset(1) [OF r] have "set w = set xs" by (metis set_mset_mset)
  then have "set (take n w) \<subseteq> set xs" "set (drop n w) \<subseteq> set xs"
    by (auto dest: in_set_takeD in_set_dropD)
  from BinaryInsertionSort_returns [OF assms this]
  obtain ys where "BinaryInsertionSort c (take n w) (drop n w) = Inr ys" by auto
  with r False show ?thesis by (simp add: array_sort_def)
qed

subsection \<open>A comparator that compares keys\<close>

lemma keyedOn_D: "keyedOn c k S \<Longrightarrow> x \<in> S \<Longrightarrow> y \<in> S \<Longrightarrow> SortCompare c x y = Inr (k y - k x)"
  by (simp add: keyedOn_def)

lemma keyedOn_returnsOn: "keyedOn c k S \<Longrightarrow> returnsOn c S"
  unfolding keyedOn_def returnsOn_def SortCompare_def
  by (fastforce split: sum.splits)

lemma keyedOn_subset: "keyedOn c k S \<Longrightarrow> T \<subseteq> S \<Longrightarrow> keyedOn c k T"
  by (auto simp: keyedOn_def)

lemma countRun_ascending:
  "keyedOn c k S \<Longrightarrow> p \<in> S \<Longrightarrow> set rest \<subseteq> S \<Longrightarrow> countRun c False p rest = Inr n \<Longrightarrow>
     descending k (p # take n rest)"
proof (induction rest arbitrary: p n)
  case Nil
  then show ?case by simp
next
  case (Cons cur rest)
  from Cons.prems have cmp: "SortCompare c cur p = Inr (k p - k cur)"
    by (simp add: keyedOn_D)
  show ?case
  proof (cases "k p - k cur < 0")
    case True
    with Cons.prems cmp show ?thesis by simp
  next
    case False
    with Cons.prems cmp obtain m where m: "countRun c False cur rest = Inr m" and n: "n = Suc m"
      by (auto split: sum.splits)
    from Cons.IH [OF Cons.prems(1) _ _ m] Cons.prems
    have "descending k (cur # take m rest)" by simp
    with False n show ?thesis by auto
  qed
qed

lemma countRun_descending:
  "keyedOn c k S \<Longrightarrow> p \<in> S \<Longrightarrow> set rest \<subseteq> S \<Longrightarrow> countRun c True p rest = Inr n \<Longrightarrow>
     sorted_wrt (\<lambda>a b. k a < k b) (p # take n rest)"
proof (induction rest arbitrary: p n)
  case Nil
  then show ?case by simp
next
  case (Cons cur rest)
  from Cons.prems have cmp: "SortCompare c cur p = Inr (k p - k cur)"
    by (simp add: keyedOn_D)
  show ?case
  proof (cases "0 \<le> k p - k cur")
    case True
    with Cons.prems cmp show ?thesis by simp
  next
    case False
    with Cons.prems cmp obtain m where m: "countRun c True cur rest = Inr m" and n: "n = Suc m"
      by (auto split: sum.splits)
    from Cons.IH [OF Cons.prems(1) _ _ m] Cons.prems
    have "sorted_wrt (\<lambda>a b. k a < k b) (cur # take m rest)" by simp
    with False n show ?thesis by auto
  qed
qed

lemma CountAndMakeRun_sorted:
  assumes "keyedOn c k S" "set xs \<subseteq> S" "CountAndMakeRun c xs = Inr (n, w)"
  shows "descending k (take n w)"
proof (cases "length xs < 2")
  case True
  with assms(3) have "w = xs" by (auto simp: CountAndMakeRun_short)
  moreover from True have "descending k xs"
    by (cases xs; cases "tl xs") auto
  ultimately show ?thesis by (simp add: sorted_wrt_take)
next
  case False
  then obtain hi lo rest where xs: "xs = hi # lo # rest"
    by (cases xs; cases "tl xs") auto
  with assms(2) have mem: "hi \<in> S" "lo \<in> S" "set rest \<subseteq> S" by auto
  from assms(3) [unfolded xs] obtain order m where
    o: "SortCompare c lo hi = Inr order" and
    m: "countRun c (order < 0) lo rest = Inr m" and n: "n = 2 + m" and
    w: "w = (if order < 0 then rev (take n xs) @ drop n xs else xs)"
    unfolding xs by (rule CountAndMakeRun_Inr)
  from o mem assms(1) have order: "order = k hi - k lo"
    by (simp add: keyedOn_D)
  from countRun_le [OF m] n xs have nlen: "n \<le> length xs" by simp
  have tk: "take n xs = hi # lo # take m rest"
    using n xs by simp
  show ?thesis
  proof (cases "order < 0")
    case True
    with m have "sorted_wrt (\<lambda>a b. k a < k b) (lo # take m rest)"
      using countRun_descending [OF assms(1) mem(2,3)] by simp
    with True order have "sorted_wrt (\<lambda>a b. k a < k b) (take n xs)"
      unfolding tk by auto
    then have "sorted_wrt (\<lambda>a b. k b < k a) (rev (take n xs))"
      by (simp add: sorted_wrt_rev)
    then have "descending k (rev (take n xs))"
      by (rule sorted_wrt_mono_rel [rotated]) simp
    moreover from True w nlen have "take n w = rev (take n xs)"
      by simp
    ultimately show ?thesis by simp
  next
    case False
    with m have "descending k (lo # take m rest)"
      using countRun_ascending [OF assms(1) mem(2,3)] by simp
    with False order have "descending k (take n xs)"
      unfolding tk by auto
    with False w show ?thesis by simp
  qed
qed

lemma findInsertionPoint_sorted:
  "keyedOn c k S \<Longrightarrow> pivot \<in> S \<Longrightarrow> set a \<subseteq> S \<Longrightarrow> descending k a \<Longrightarrow>
   left \<le> right \<Longrightarrow> right \<le> length a \<Longrightarrow>
   (\<forall>i<left. k pivot \<le> k (a ! i)) \<Longrightarrow> (\<forall>i. right \<le> i \<and> i < length a \<longrightarrow> k (a ! i) < k pivot) \<Longrightarrow>
   \<exists>l. findInsertionPoint c pivot a left right = Inr l \<and> l \<le> length a
        \<and> (\<forall>i<l. k pivot \<le> k (a ! i)) \<and> (\<forall>i. l \<le> i \<and> i < length a \<longrightarrow> k (a ! i) < k pivot)"
proof (induction c pivot a left right rule: findInsertionPoint.induct)
  case (1 c pivot a left right)
  show ?case
  proof (cases "left < right")
    case False
    with "1.prems" have "left = right" by simp
    with "1.prems" False show ?thesis
      by (subst findInsertionPoint.simps) auto
  next
    case True
    let ?mid = "left + (right - left) div 2"
    from True have mid: "left \<le> ?mid" "?mid < right" by auto
    with "1.prems" have midlen: "?mid < length a" by simp
    then have "a ! ?mid \<in> S" using "1.prems"(3) by (auto simp: subset_iff)
    with "1.prems" have cmp: "SortCompare c pivot (a ! ?mid) = Inr (k (a ! ?mid) - k pivot)"
      by (simp add: keyedOn_D)
    show ?thesis
    proof (cases "k (a ! ?mid) - k pivot < 0")
      case neg: True
      have after: "\<forall>i. ?mid \<le> i \<and> i < length a \<longrightarrow> k (a ! i) < k pivot"
      proof (intro allI impI)
        fix i assume i: "?mid \<le> i \<and> i < length a"
        show "k (a ! i) < k pivot"
        proof (cases "i = ?mid")
          case True
          with neg show ?thesis by simp
        next
          case False
          with i have "?mid < i" by simp
          with i sorted_wrt_nth_less [OF "1.prems"(4), of ?mid i]
          have "k (a ! i) \<le> k (a ! ?mid)"
            by simp
          with neg show ?thesis by simp
        qed
      qed
      from "1.IH"(1) [OF True cmp neg "1.prems"(1,2,3,4) mid(1) _ "1.prems"(7) after] midlen
      obtain l where "findInsertionPoint c pivot a left ?mid = Inr l \<and> l \<le> length a
        \<and> (\<forall>i<l. k pivot \<le> k (a ! i)) \<and> (\<forall>i. l \<le> i \<and> i < length a \<longrightarrow> k (a ! i) < k pivot)"
        by auto
      with True cmp neg show ?thesis
        by (subst findInsertionPoint.simps) simp
    next
      case nonneg: False
      have before: "\<forall>i<?mid + 1. k pivot \<le> k (a ! i)"
      proof (intro allI impI)
        fix i assume i: "i < ?mid + 1"
        show "k pivot \<le> k (a ! i)"
        proof (cases "i = ?mid")
          case True
          with nonneg show ?thesis by simp
        next
          case False
          with i have "i < ?mid" by simp
          with midlen sorted_wrt_nth_less [OF "1.prems"(4), of i ?mid]
          have "k (a ! ?mid) \<le> k (a ! i)"
            by simp
          with nonneg show ?thesis by simp
        qed
      qed
      from mid have "?mid + 1 \<le> right" by simp
      from "1.IH"(2) [OF True cmp nonneg "1.prems"(1,2,3,4) this "1.prems"(6) before "1.prems"(8)]
      obtain l where "findInsertionPoint c pivot a (?mid + 1) right = Inr l \<and> l \<le> length a
        \<and> (\<forall>i<l. k pivot \<le> k (a ! i)) \<and> (\<forall>i. l \<le> i \<and> i < length a \<longrightarrow> k (a ! i) < k pivot)"
        by auto
      with True cmp nonneg show ?thesis
        by (subst findInsertionPoint.simps) simp
    qed
  qed
qed

lemma insertion_point:
  assumes "keyedOn c k S" "pivot \<in> S" "set a \<subseteq> S" "descending k a"
  obtains l where "findInsertionPoint c pivot a 0 (length a) = Inr l" "l \<le> length a"
    "\<forall>x\<in>set (take l a). k pivot \<le> k x" "\<forall>x\<in>set (drop l a). k x < k pivot"
proof -
  from findInsertionPoint_sorted [OF assms, of 0 "length a"]
  obtain l where l: "findInsertionPoint c pivot a 0 (length a) = Inr l" "l \<le> length a"
    "\<forall>i<l. k pivot \<le> k (a ! i)" "\<forall>i. l \<le> i \<and> i < length a \<longrightarrow> k (a ! i) < k pivot"
    by auto
  have "\<forall>x\<in>set (take l a). k pivot \<le> k x"
    using l(2,3) by (auto simp: in_set_conv_nth)
  moreover have "\<forall>x\<in>set (drop l a). k x < k pivot"
    using l(2,4) by (auto simp: in_set_conv_nth)
  ultimately show ?thesis using l(1,2) that by blast
qed

lemma descending_insert:
  assumes "descending k a" "\<forall>x\<in>set (take l a). k pivot \<le> k x" "\<forall>x\<in>set (drop l a). k x < k pivot"
  shows "descending k (take l a @ pivot # drop l a)"
proof -
  from assms(1) have "descending k (take l a @ drop l a)" by simp
  then have "descending k (take l a)" "descending k (drop l a)"
    "\<forall>x\<in>set (take l a). \<forall>y\<in>set (drop l a). k y \<le> k x"
    unfolding sorted_wrt_append by auto
  with assms(2,3) show ?thesis
    unfolding sorted_wrt_append by (auto intro: less_imp_le order_trans)
qed

lemma BinaryInsertionSort_sorted:
  "keyedOn c k S \<Longrightarrow> set pre \<subseteq> S \<Longrightarrow> set rest \<subseteq> S \<Longrightarrow> descending k pre \<Longrightarrow>
     \<exists>ys. BinaryInsertionSort c pre rest = Inr ys \<and> descending k ys"
proof (induction rest arbitrary: pre)
  case Nil
  then show ?case by simp
next
  case (Cons pivot rest)
  from Cons.prems have pivot: "pivot \<in> S" by simp
  from insertion_point [OF Cons.prems(1) pivot Cons.prems(2,4)]
  obtain l where l: "findInsertionPoint c pivot pre 0 (length pre) = Inr l"
    "\<forall>x\<in>set (take l pre). k pivot \<le> k x" "\<forall>x\<in>set (drop l pre). k x < k pivot"
    by blast
  have sub: "set (take l pre @ pivot # drop l pre) \<subseteq> S"
    using Cons.prems by (auto dest: in_set_takeD in_set_dropD)
  have "descending k (take l pre @ pivot # drop l pre)"
    using Cons.prems(4) l(2,3) by (rule descending_insert)
  from Cons.IH [OF Cons.prems(1) sub _ this] Cons.prems(3)
  obtain ys where "BinaryInsertionSort c (take l pre @ pivot # drop l pre) rest = Inr ys"
    "descending k ys" by auto
  with l(1) show ?case by simp
qed

lemma array_sort_sorted:
  assumes "keyedOn c k (set xs)"
  shows "\<exists>ys. array_sort c xs = Inr ys \<and> descending k ys"
proof (cases "length xs < 2")
  case True
  then have "descending k xs"
    by (cases xs; cases "tl xs") auto
  with True show ?thesis by (simp add: array_sort_def)
next
  case False
  from CountAndMakeRun_returns [OF keyedOn_returnsOn [OF assms] subset_refl]
  obtain n w where r: "CountAndMakeRun c xs = Inr (n, w)" by auto
  from CountAndMakeRun_mset(1) [OF r] have "set w = set xs" by (metis set_mset_mset)
  then have sub: "set (take n w) \<subseteq> set xs" "set (drop n w) \<subseteq> set xs"
    by (auto dest: in_set_takeD in_set_dropD)
  from CountAndMakeRun_sorted [OF assms subset_refl r]
  have "descending k (take n w)" .
  from BinaryInsertionSort_sorted [OF assms sub this]
  obtain ys where "BinaryInsertionSort c (take n w) (drop n w) = Inr ys" "descending k ys"
    by auto
  with r False show ?thesis by (simp add: array_sort_def)
qed

subsection \<open>A sorted array is returned as it is\<close>

lemma countRun_whole:
  "keyedOn c k S \<Longrightarrow> p \<in> S \<Longrightarrow> set rest \<subseteq> S \<Longrightarrow> descending k (p # rest) \<Longrightarrow>
     countRun c False p rest = Inr (length rest)"
proof (induction rest arbitrary: p)
  case Nil
  then show ?case by simp
next
  case (Cons cur rest)
  from Cons.prems have cmp: "SortCompare c cur p = Inr (k p - k cur)"
    by (simp add: keyedOn_D)
  from Cons.prems have "countRun c False cur rest = Inr (length rest)"
    by (intro Cons.IH) auto
  with cmp Cons.prems(4) show ?case by simp
qed

lemma array_sort_sorted_id:
  assumes "keyedOn c k (set xs)" "descending k xs"
  shows "array_sort c xs = Inr xs"
proof (cases "length xs < 2")
  case True
  then show ?thesis by (simp add: array_sort_def)
next
  case False
  then obtain hi lo rest where xs: "xs = hi # lo # rest"
    by (cases xs; cases "tl xs") auto
  from assms xs have cmp: "SortCompare c lo hi = Inr (k hi - k lo)"
    by (simp add: keyedOn_D)
  from assms(2) xs have ge: "\<not> k hi - k lo < 0" by simp
  from assms xs have "countRun c False lo rest = Inr (length rest)"
    by (intro countRun_whole [where S = "set xs"]) auto
  with cmp ge xs have "CountAndMakeRun c xs = Inr (length xs, xs)"
    by (simp add: CountAndMakeRun_def)
  with False show ?thesis by (simp add: array_sort_def)
qed

subsection \<open>With keys compared, equal keys keep their order\<close>

lemma strictly_increasing_filter:
  fixes k :: "'a \<Rightarrow> int"
  shows "sorted_wrt (\<lambda>a b. k a < k b) zs \<Longrightarrow> length (filter (\<lambda>x. k x = t) zs) \<le> 1"
proof (induction zs)
  case Nil
  then show ?case by simp
next
  case (Cons z zs)
  show ?case
  proof (cases "k z = t")
    case True
    with Cons.prems have "filter (\<lambda>x. k x = t) zs = []"
      by (fastforce simp: filter_empty_conv)
    with True show ?thesis by simp
  next
    case False
    with Cons show ?thesis by simp
  qed
qed

lemma filter_rev_strictly_increasing:
  fixes k :: "'a \<Rightarrow> int"
  assumes "sorted_wrt (\<lambda>a b. k a < k b) zs"
  shows "filter (\<lambda>x. k x = t) (rev zs) = filter (\<lambda>x. k x = t) zs"
proof -
  from strictly_increasing_filter [OF assms, of t]
  have "rev (filter (\<lambda>x. k x = t) zs) = filter (\<lambda>x. k x = t) zs"
    by (cases "filter (\<lambda>x. k x = t) zs"; cases "tl (filter (\<lambda>x. k x = t) zs)") auto
  then show ?thesis by (simp add: rev_filter)
qed

lemma filter_take_drop: "filter P (take n xs) @ filter P (drop n xs) = filter P xs"
  by (metis append_take_drop_id filter_append)

lemma CountAndMakeRun_filter:
  assumes "keyedOn c k S" "set xs \<subseteq> S" "CountAndMakeRun c xs = Inr (n, w)"
  shows "filter (\<lambda>x. k x = t) w = filter (\<lambda>x. k x = t) xs"
proof (cases "length xs < 2")
  case True
  with assms(3) show ?thesis by (auto simp: CountAndMakeRun_short)
next
  case False
  then obtain hi lo rest where xs: "xs = hi # lo # rest"
    by (cases xs; cases "tl xs") auto
  with assms(2) have mem: "hi \<in> S" "lo \<in> S" "set rest \<subseteq> S" by auto
  from assms(3) [unfolded xs] obtain order m where
    o: "SortCompare c lo hi = Inr order" and
    m: "countRun c (order < 0) lo rest = Inr m" and n: "n = 2 + m" and
    w: "w = (if order < 0 then rev (take n xs) @ drop n xs else xs)"
    unfolding xs by (rule CountAndMakeRun_Inr)
  from o mem assms(1) have order: "order = k hi - k lo"
    by (simp add: keyedOn_D)
  have tk: "take n xs = hi # lo # take m rest"
    using n xs by simp
  show ?thesis
  proof (cases "order < 0")
    case True
    with m have "sorted_wrt (\<lambda>a b. k a < k b) (lo # take m rest)"
      using countRun_descending [OF assms(1) mem(2,3)] by simp
    with True order have "sorted_wrt (\<lambda>a b. k a < k b) (take n xs)"
      unfolding tk by auto
    from filter_rev_strictly_increasing [OF this, of t] True w show ?thesis
      by (simp add: filter_take_drop)
  next
    case False
    with w show ?thesis by simp
  qed
qed

lemma filter_insert_at:
  fixes k :: "'a \<Rightarrow> int"
  assumes "\<forall>x\<in>set (drop l a). k x < k pivot"
  shows "filter (\<lambda>x. k x = t) (take l a @ pivot # drop l a) =
           filter (\<lambda>x. k x = t) a @ filter (\<lambda>x. k x = t) [pivot]"
proof (cases "k pivot = t")
  case True
  with assms have "filter (\<lambda>x. k x = t) (drop l a) = []"
    by (fastforce simp: filter_empty_conv)
  with filter_take_drop [of "\<lambda>x. k x = t" l a] True show ?thesis by simp
next
  case False
  with filter_take_drop [of "\<lambda>x. k x = t" l a] show ?thesis by simp
qed

lemma BinaryInsertionSort_filter:
  "keyedOn c k S \<Longrightarrow> set pre \<subseteq> S \<Longrightarrow> set rest \<subseteq> S \<Longrightarrow> descending k pre \<Longrightarrow>
   BinaryInsertionSort c pre rest = Inr ys \<Longrightarrow>
     filter (\<lambda>x. k x = t) ys = filter (\<lambda>x. k x = t) pre @ filter (\<lambda>x. k x = t) rest"
proof (induction rest arbitrary: pre)
  case Nil
  then show ?case by simp
next
  case (Cons pivot rest)
  from Cons.prems have pivot: "pivot \<in> S" by simp
  from insertion_point [OF Cons.prems(1) pivot Cons.prems(2,4)]
  obtain l where l: "findInsertionPoint c pivot pre 0 (length pre) = Inr l"
    "\<forall>x\<in>set (take l pre). k pivot \<le> k x" "\<forall>x\<in>set (drop l pre). k x < k pivot"
    by blast
  let ?pre = "take l pre @ pivot # drop l pre"
  have sub: "set ?pre \<subseteq> S"
    using Cons.prems by (auto dest: in_set_takeD in_set_dropD)
  have sorted: "descending k ?pre"
    using Cons.prems(4) l(2,3) by (rule descending_insert)
  from Cons.prems(5) l(1) have run: "BinaryInsertionSort c ?pre rest = Inr ys"
    by simp
  from Cons.prems(3) have "set rest \<subseteq> S" by simp
  from Cons.IH [OF Cons.prems(1) sub this sorted run]
  have "filter (\<lambda>x. k x = t) ys = filter (\<lambda>x. k x = t) ?pre @ filter (\<lambda>x. k x = t) rest" .
  also have "filter (\<lambda>x. k x = t) ?pre = filter (\<lambda>x. k x = t) pre @ filter (\<lambda>x. k x = t) [pivot]"
    using l(3) by (rule filter_insert_at)
  finally show ?case by simp
qed

lemma array_sort_stable:
  assumes "keyedOn c k (set xs)" "array_sort c xs = Inr ys"
  shows "filter (\<lambda>x. k x = t) ys = filter (\<lambda>x. k x = t) xs"
proof (cases "length xs < 2")
  case True
  with assms(2) show ?thesis by (simp add: array_sort_def)
next
  case False
  with assms(2) obtain n w where r: "CountAndMakeRun c xs = Inr (n, w)"
    and b: "BinaryInsertionSort c (take n w) (drop n w) = Inr ys"
    by (auto simp: array_sort_def split: sum.splits)
  from CountAndMakeRun_mset(1) [OF r] have "set w = set xs" by (metis set_mset_mset)
  then have sub: "set (take n w) \<subseteq> set xs" "set (drop n w) \<subseteq> set xs"
    by (auto dest: in_set_takeD in_set_dropD)
  from CountAndMakeRun_sorted [OF assms(1) subset_refl r]
  have "descending k (take n w)" .
  from BinaryInsertionSort_filter [OF assms(1) sub this b, of t]
  have "filter (\<lambda>x. k x = t) ys = filter (\<lambda>x. k x = t) w"
    by (simp add: filter_take_drop)
  with CountAndMakeRun_filter [OF assms(1) subset_refl r, of t] show ?thesis by simp
qed

subsection \<open>The comparator of sortPostsByDate\<close>

lemma compareFn_keyed:
  assumes "\<forall>p\<in>S. validDate timeOf p"
  shows "keyedOn (compareFn timeOf) (timeValue timeOf) S"
  unfolding keyedOn_def
proof (intro ballI)
  fix x y assume "x \<in> S" "y \<in> S"
  with assms have "validDate timeOf x" "validDate timeOf y" by auto
  then show "SortCompare (compareFn timeOf) x y = Inr (timeValue timeOf y - timeValue timeOf x)"
    by (auto simp: validDate_def SortCompare_def compareFn_def timeValue_def
        split: sum.splits option.splits)
qed

lemma compareFn_returns:
  assumes "\<forall>p\<in>S. convertible timeOf p"
  shows "returnsOn (compareFn timeOf) S"
  unfolding returnsOn_def
proof (intro ballI)
  fix x y assume "x \<in> S" "y \<in> S"
  with assms have "convertible timeOf x" "convertible timeOf y" by auto
  then show "\<exists>v. compareFn timeOf x y = Inr v"
    by (auto simp: convertible_def compareFn_def split: sum.splits)
qed

lemma dateGe_iff:
  "dateGe timeOf a b \<longleftrightarrow>
     validDate timeOf a \<and> validDate timeOf b \<and> timeValue timeOf b \<le> timeValue timeOf a"
  by (auto simp: dateGe_def validDate_def timeValue_def split: sum.splits option.splits)

lemma descending_dateGe:
  assumes "\<forall>p\<in>set ys. validDate timeOf p" "descending (timeValue timeOf) ys"
  shows "sorted_wrt (dateGe timeOf) ys"
  using assms(2)
proof (rule sorted_wrt_mono_rel [rotated])
  fix a b assume "a \<in> set ys" "b \<in> set ys" "timeValue timeOf b \<le> timeValue timeOf a"
  with assms(1) show "dateGe timeOf a b" by (simp add: dateGe_iff)
qed

lemma sortPostsByDate_stable_when_dates_parse:
  assumes "\<forall>p\<in>set posts. validDate timeOf p" "sortPostsByDate timeOf posts = Inr items"
  shows "filter (\<lambda>p. timeValue timeOf p = t) items = filter (\<lambda>p. timeValue timeOf p = t) posts"
  using array_sort_stable [OF compareFn_keyed [OF assms(1)]] assms(2)
  by (simp add: sortPostsByDate_def)

lemmas sample_post_defs =
  januaryPost_def laterPost_def summerPost_def oddPost_def datedPost_def samplePost_def
  sample_timeOf_def sample_parse_def

lemmas sort_eval_defs =
  sortPostsByDate_def array_sort_def CountAndMakeRun_def SortCompare_def compareFn_def
  findInsertionPoint.simps


section \<open>The claims about sortPostsByDate\<close>

text \<open>
  Claim C1. For every array of posts whose \<open>publishedAt\<close> fields all parse as dates,
  \<open>sortPostsByDate\<close> returns, and its output is ordered descending by date: at every
  index \<open>i\<close> with \<open>i + 1\<close> in range, the date of \<open>sorted[i]\<close> is greater than or equal to
  the date of \<open>sorted[i + 1]\<close>.
\<close>

theorem sortPostsByDate_descending:
  assumes "\<forall>p\<in>set posts. validDate timeOf p"
  shows "\<exists>items. sortPostsByDate timeOf posts = Inr items
           \<and> (\<forall>i. Suc i < length items \<longrightarrow> dateGe timeOf (items ! i) (items ! Suc i))"
proof -
  from array_sort_sorted [OF compareFn_keyed [OF assms]]
  obtain items where s: "sortPostsByDate timeOf posts = Inr items"
    and d: "descending (timeValue timeOf) items"
    unfolding sortPostsByDate_def by blast
  from s have "set items = set posts"
    unfolding sortPostsByDate_def by (rule array_sort_set)
  with assms have "\<forall>p\<in>set items. validDate timeOf p" by simp
  from descending_dateGe [OF this d] have "sorted_wrt (dateGe timeOf) items" .
  then have "\<forall>i. Suc i < length items \<longrightarrow> dateGe timeOf (items ! i) (items ! Suc i)"
    by (simp add: sorted_wrt_nth_less)
  with s show ?thesis by blast
qed

theorem sortPostsByDate_descending_witness:
  "validDate sample_timeOf (januaryPost ''en'') \<and> validDate sample_timeOf (summerPost ''en'')
   \<and> validDate sample_timeOf (januaryPost ''es'')
   \<and> sortPostsByDate sample_timeOf [januaryPost ''en'', summerPost ''en'', januaryPost ''es'']
       = Inr [summerPost ''en'', januaryPost ''en'', januaryPost ''es'']
   \<and> dateGe sample_timeOf (summerPost ''en'') (januaryPost ''en'')
   \<and> dateGe sample_timeOf (januaryPost ''en'') (januaryPost ''es'')"
proof -
  let ?posts = "[januaryPost ''en'', summerPost ''en'', januaryPost ''es'']"
  let ?items = "[summerPost ''en'', januaryPost ''en'', januaryPost ''es'']"
  have v: "\<forall>p\<in>set ?posts. validDate sample_timeOf p"
    by (simp add: validDate_def sample_post_defs)
  have s: "sortPostsByDate sample_timeOf ?posts = Inr ?items"
    by (simp add: sort_eval_defs sample_post_defs)
  from sortPostsByDate_descending [OF v] s
  have a: "\<forall>i. Suc i < length ?items \<longrightarrow> dateGe sample_timeOf (?items ! i) (?items ! Suc i)"
    by simp
  from a [rule_format, of 0] have d0: "dateGe sample_timeOf (summerPost ''en'') (januaryPost ''en'')"
    by simp
  from a [rule_format, of 1] have d1: "dateGe sample_timeOf (januaryPost ''en'') (januaryPost ''es'')"
    by simp
  from v have "validDate sample_timeOf (januaryPost ''en'')" "validDate sample_timeOf (summerPost ''en'')"
    "validDate sample_timeOf (januaryPost ''es'')" by simp_all
  with s d0 d1 show ?thesis by (intro conjI)
qed

text \<open>
  Claim C2. For every array of posts, \<open>sortPostsByDate\<close> returns a permutation of it: the
  same length and the same multiset of elements, no record lost, duplicated or modified.
  Whatever the call returns is such a permutation; and it does return for every array of
  records whose \<open>publishedAt\<close> the \<open>Date\<close> constructor converts without throwing, which
  holds of every string, the type of the field.
\<close>

theorem sortPostsByDate_permutation:
  "(\<forall>items. sortPostsByDate timeOf posts = Inr items \<longrightarrow>
      mset items = mset posts \<and> length items = length posts)
   \<and> ((\<forall>p\<in>set posts. convertible timeOf p) \<longrightarrow> (\<exists>items. sortPostsByDate timeOf posts = Inr items))"
proof (intro conjI allI impI)
  fix items
  assume s: "sortPostsByDate timeOf posts = Inr items"
  then show "mset items = mset posts"
    unfolding sortPostsByDate_def by (rule array_sort_mset)
  from s show "length items = length posts"
    unfolding sortPostsByDate_def by (rule array_sort_length)
next
  assume "\<forall>p\<in>set posts. convertible timeOf p"
  then have "returnsOn (compareFn timeOf) (set posts)"
    by (rule compareFn_returns)
  then show "\<exists>items. sortPostsByDate timeOf posts = Inr items"
    unfolding sortPostsByDate_def by (rule array_sort_returns)
qed

theorem sortPostsByDate_permutation_witness:
  "convertible sample_timeOf (januaryPost ''en'') \<and> convertible sample_timeOf (summerPost ''en'')
   \<and> convertible sample_timeOf (laterPost ''en'') \<and> convertible sample_timeOf (summerPost ''es'')
   \<and> sortPostsByDate sample_timeOf
        [januaryPost ''en'', summerPost ''en'', laterPost ''en'', summerPost ''es'']
     = Inr [summerPost ''en'', summerPost ''es'', januaryPost ''en'', laterPost ''en'']
   \<and> mset [summerPost ''en'', summerPost ''es'', januaryPost ''en'', laterPost ''en'']
     = mset [januaryPost ''en'', summerPost ''en'', laterPost ''en'', summerPost ''es'']"
proof -
  let ?posts = "[januaryPost ''en'', summerPost ''en'', laterPost ''en'', summerPost ''es'']"
  let ?items = "[summerPost ''en'', summerPost ''es'', januaryPost ''en'', laterPost ''en'']"
  have c: "convertible sample_timeOf (januaryPost ''en'')" "convertible sample_timeOf (summerPost ''en'')"
    "convertible sample_timeOf (laterPost ''en'')" "convertible sample_timeOf (summerPost ''es'')"
    by (simp_all add: convertible_def sample_post_defs)
  have s: "sortPostsByDate sample_timeOf ?posts = Inr ?items"
    by (simp add: sort_eval_defs sample_post_defs)
  from sortPostsByDate_permutation [of sample_timeOf ?posts] s
  have "mset ?items = mset ?posts" by blast
  with c s show ?thesis by (intro conjI)
qed

text \<open>
  Claim C10. \<open>sortPostsByDate\<close> is idempotent: for every array of posts whose
  \<open>publishedAt\<close> fields all parse as dates, sorting the sorted array returns it element
  for element, in the same order.
\<close>

theorem sortPostsByDate_idempotent:
  assumes "\<forall>p\<in>set posts. validDate timeOf p"
  shows "\<exists>items. sortPostsByDate timeOf posts = Inr items \<and> sortPostsByDate timeOf items = Inr items"
proof -
  from array_sort_sorted [OF compareFn_keyed [OF assms]]
  obtain items where s: "array_sort (compareFn timeOf) posts = Inr items"
    and d: "descending (timeValue timeOf) items"
    by blast
  from array_sort_set [OF s] assms have "\<forall>p\<in>set items. validDate timeOf p" by simp
  from array_sort_sorted_id [OF compareFn_keyed [OF this] d] s show ?thesis
    by (simp add: sortPostsByDate_def)
qed

theorem sortPostsByDate_idempotent_witness:
  "validDate sample_timeOf (januaryPost ''en'') \<and> validDate sample_timeOf (summerPost ''en'')
   \<and> sortPostsByDate sample_timeOf [januaryPost ''en'', summerPost ''en'']
        = Inr [summerPost ''en'', januaryPost ''en'']
   \<and> sortPostsByDate sample_timeOf [summerPost ''en'', januaryPost ''en'']
        = Inr [summerPost ''en'', januaryPost ''en'']"
proof -
  let ?posts = "[januaryPost ''en'', summerPost ''en'']"
  have v: "\<forall>p\<in>set ?posts. validDate sample_timeOf p"
    by (simp add: validDate_def sample_post_defs)
  have s: "sortPostsByDate sample_timeOf ?posts = Inr [summerPost ''en'', januaryPost ''en'']"
    by (simp add: sort_eval_defs sample_post_defs)
  from sortPostsByDate_idempotent [OF v] s
  have "sortPostsByDate sample_timeOf [summerPost ''en'', januaryPost ''en'']
          = Inr [summerPost ''en'', januaryPost ''en'']"
    by auto
  with v s show ?thesis by simp
qed

text \<open>
  Claim C8. \<open>sortPostsByDate\<close> never mutates its input array: after the call, whether it
  returned or threw, every array of the store, the input among them, holds the elements
  it held before, in the same order; the array returned is a new one, at a reference the
  store did not have, and holds the sorted elements of the input; for an input of at most
  one element the call returns an equal copy of the input.
\<close>

theorem sortPostsByDate_ref_frame:
  assumes "posts < length st"
  shows "\<exists>st' res. sortPostsByDate_ref timeOf st posts = Some (st', res)
           \<and> length st' = Suc (length st) \<and> take (length st) st' = st
           \<and> (case res of
                Inr r \<Rightarrow> r = length st \<and> r \<noteq> posts
                         \<and> sortPostsByDate timeOf (st ! posts) = Inr (st' ! r)
              | Inl e \<Rightarrow> sortPostsByDate timeOf (st ! posts) = Inl e)
           \<and> (length (st ! posts) \<le> 1 \<longrightarrow> res = Inr (length st) \<and> st' ! length st = st ! posts)"
proof (cases "array_sort (compareFn timeOf) (st ! posts)")
  case (Inl e)
  with assms have "sortPostsByDate_ref timeOf st posts = Some (st @ [st ! posts], Inl e)"
    by (simp add: sortPostsByDate_ref_def spread_def sort_in_place_def nth_append)
  moreover from Inl have "\<not> length (st ! posts) \<le> 1"
    using array_sort_short [of "st ! posts" "compareFn timeOf"] by auto
  ultimately show ?thesis using Inl
    by (simp add: sortPostsByDate_def)
next
  case (Inr items)
  with assms have r: "sortPostsByDate_ref timeOf st posts = Some (st @ [items], Inr (length st))"
    by (simp add: sortPostsByDate_ref_def spread_def sort_in_place_def nth_append)
  have "length (st ! posts) \<le> 1 \<longrightarrow> items = st ! posts"
    using array_sort_short [of "st ! posts" "compareFn timeOf"] Inr by auto
  with r Inr assms show ?thesis
    by (auto simp: sortPostsByDate_def)
qed

theorem sortPostsByDate_ref_frame_witness:
  "sortPostsByDate_ref sample_timeOf [[januaryPost ''en'', summerPost ''en''], [laterPost ''en'']] 0
     = Some ([[januaryPost ''en'', summerPost ''en''], [laterPost ''en''],
              [summerPost ''en'', januaryPost ''en'']], Inr 2)
   \<and> sortPostsByDate_ref sample_timeOf [[januaryPost ''en'', summerPost ''en''], [laterPost ''en'']] 1
     = Some ([[januaryPost ''en'', summerPost ''en''], [laterPost ''en''], [laterPost ''en'']], Inr 2)
   \<and> sortPostsByDate_ref sample_timeOf [[oddPost ''en'', summerPost ''en'']] 0
     = Some ([[oddPost ''en'', summerPost ''en''], [oddPost ''en'', summerPost ''en'']], Inl TypeError)"
proof -
  let ?st = "[[januaryPost ''en'', summerPost ''en''], [laterPost ''en'']]"
  let ?odd = "[[oddPost ''en'', summerPost ''en'']]"
  have l0: "0 < length ?st" and l1: "1 < length ?st" and l2: "0 < length ?odd" by simp_all
  have first: "sortPostsByDate_ref sample_timeOf ?st 0
     = Some (?st @ [[summerPost ''en'', januaryPost ''en'']], Inr 2)"
    by (simp add: sortPostsByDate_ref_def spread_def sort_in_place_def
        sort_eval_defs sample_post_defs)
  have second: "sortPostsByDate_ref sample_timeOf ?st 1 = Some (?st @ [[laterPost ''en'']], Inr 2)"
    by (simp add: sortPostsByDate_ref_def spread_def sort_in_place_def array_sort_def)
  have third: "sortPostsByDate_ref sample_timeOf ?odd 0
     = Some (?odd @ [[oddPost ''en'', summerPost ''en'']], Inl TypeError)"
    by (simp add: sortPostsByDate_ref_def spread_def sort_in_place_def
        sort_eval_defs sample_post_defs)
  from sortPostsByDate_ref_frame [OF l0, of sample_timeOf]
    sortPostsByDate_ref_frame [OF l1, of sample_timeOf]
    sortPostsByDate_ref_frame [OF l2, of sample_timeOf] first second third
  show ?thesis by simp
qed

text \<open>
  Claim C3. \<open>sortPostsByDate\<close> is stable: for every input array, two records whose
  \<open>publishedAt\<close> fields parse to equal dates appear in the output in the order they have in
  the input. With every date parsing this holds (\<open>sortPostsByDate_stable_when_dates_parse\<close>
  above). It fails when some date does not parse, since the comparator then answers
  \<open>NaN\<close>: in the array of seven posts below, \<open>p1\<close>, \<open>p3\<close>, \<open>p4\<close>, \<open>p5\<close> and \<open>p6\<close> are all
  dated 1 March 2024 and \<open>p2\<close> is dated \<open>"soon"\<close>; the sort returns \<open>p6\<close> before \<open>p5\<close>.
\<close>

theorem sortPostsByDate_unstable_at_unparseable_date:
  "sortPostsByDate sample_timeOf
     [datedPost ''p0'' ''2024-01-01'', datedPost ''p1'' ''2024-03-01'', datedPost ''p2'' ''soon'',
      datedPost ''p3'' ''2024-03-01'', datedPost ''p4'' ''2024-03-01'', datedPost ''p5'' ''2024-03-01'',
      datedPost ''p6'' ''2024-03-01'']
   = Inr [datedPost ''p1'' ''2024-03-01'', datedPost ''p3'' ''2024-03-01'',
          datedPost ''p4'' ''2024-03-01'', datedPost ''p6'' ''2024-03-01'',
          datedPost ''p0'' ''2024-01-01'', datedPost ''p2'' ''soon'', datedPost ''p5'' ''2024-03-01'']"
  by (simp add: sort_eval_defs sample_post_defs)

section \<open>Properties of the loader\<close>

lemma parsePostFile_Some_iff:
  "fst (parsePostFile lib fs f loc) \<noteq> None \<longleftrightarrow> fileOk lib fs f"
  by (auto simp: parsePostFile_def fileOk_def Let_def split: sum.splits prod.splits)

lemma parsePostFile_log_ok:
  "fileOk lib fs f \<Longrightarrow> snd (parsePostFile lib fs f loc) = []"
  by (auto simp: parsePostFile_def fileOk_def Let_def split: sum.splits prod.splits)

lemma parsePostFile_log_fail:
  "\<not> fileOk lib fs f \<Longrightarrow> map diagnosticPath (snd (parsePostFile lib fs f loc)) = [f]"
  by (auto simp: parsePostFile_def fileOk_def Let_def split: sum.splits prod.splits)

lemma parsePostFile_fields:
  "fst (parsePostFile lib fs f loc) = Some post \<Longrightarrow>
     postLocale post = loc \<and> slug post = basename f ''.mdx''"
  by (auto simp: parsePostFile_def Let_def split: sum.splits prod.splits if_splits)

lemma parsePostFile_None_iff:
  "fst (parsePostFile lib fs f loc) = None \<longleftrightarrow> \<not> fileOk lib fs f"
  using parsePostFile_Some_iff [of lib fs f loc] by blast

lemma surviving_posts:
  "map the (filter (\<lambda>post. post \<noteq> None) (map fst (map (\<lambda>f. parsePostFile lib fs f loc) files))) =
     map (\<lambda>f. the (fst (parsePostFile lib fs f loc))) (filter (fileOk lib fs) files)"
proof (induction files)
  case Nil
  show ?case by simp
next
  case (Cons f files)
  show ?case
  proof (cases "fileOk lib fs f")
    case True
    then have "fst (parsePostFile lib fs f loc) \<noteq> None"
      using parsePostFile_Some_iff [of lib fs f loc] by blast
    with True Cons show ?thesis by simp
  next
    case False
    then have "fst (parsePostFile lib fs f loc) = None"
      using parsePostFile_None_iff [of lib fs f loc] by blast
    with False Cons show ?thesis by simp
  qed
qed

lemma logged_paths:
  "map diagnosticPath (concat (map snd (map (\<lambda>f. parsePostFile lib fs f loc) files))) =
     filter (\<lambda>f. \<not> fileOk lib fs f) files"
  by (induction files) (auto simp: parsePostFile_log_ok parsePostFile_log_fail)

lemma getBlogPosts_Dir:
  assumes "nodes fs (getPostsDirectory fs loc) = Some (Dir entries)"
  shows "getBlogPosts lib timeOf fs loc =
     (concat (map snd (map (\<lambda>f. parsePostFile lib fs f loc) (postFiles fs loc entries))),
      sortPostsByDate timeOf (parsedPosts lib fs loc))"
  using assms
  by (simp add: getBlogPosts_def existsSync_def readdirSync_def parsedPosts_def postFiles_def
      Let_def surviving_posts [symmetric] comp_def)

lemma getBlogPosts_absent:
  "nodes fs (getPostsDirectory fs loc) = None \<Longrightarrow> getBlogPosts lib timeOf fs loc = ([], Inr [])"
  by (simp add: getBlogPosts_def existsSync_def)

lemma getBlogPosts_File:
  "nodes fs (getPostsDirectory fs loc) = Some (File c) \<Longrightarrow>
     getBlogPosts lib timeOf fs loc = ([], Inl ENOTDIR)"
  by (simp add: getBlogPosts_def existsSync_def readdirSync_def)

lemma parsedPosts_not_Dir:
  "(\<And>entries. nodes fs (getPostsDirectory fs loc) \<noteq> Some (Dir entries)) \<Longrightarrow> parsedPosts lib fs loc = []"
  by (auto simp: parsedPosts_def readdirSync_def split: option.splits node.splits)

lemma getBlogPosts_result:
  assumes "getBlogPosts lib timeOf fs loc = (log, Inr posts)"
  shows "sortPostsByDate timeOf (parsedPosts lib fs loc) = Inr posts"
proof (cases "nodes fs (getPostsDirectory fs loc)")
  case None
  with assms show ?thesis
    by (simp add: getBlogPosts_absent parsedPosts_def readdirSync_def sortPostsByDate_def
        array_sort_def)
next
  case (Some n)
  show ?thesis
  proof (cases n)
    case (File c)
    with Some assms show ?thesis by (simp add: getBlogPosts_File)
  next
    case (Dir entries)
    with Some assms show ?thesis by (simp add: getBlogPosts_Dir)
  qed
qed

lemma getBlogPosts_set:
  assumes "getBlogPosts lib timeOf fs loc = (log, Inr posts)"
  shows "set posts = set (parsedPosts lib fs loc)"
  using getBlogPosts_result [OF assms] unfolding sortPostsByDate_def by (rule array_sort_set)

lemma length_path_join: "length a \<le> length (path_join a b)"
  by (simp add: path_join_def)

lemma path_join_shape:
  assumes "file \<noteq> []" "dir \<noteq> []"
  shows "\<exists>pre. path_join dir file = pre @ CHR ''/'' # file"
proof (cases "last dir = CHR ''/''")
  case True
  with assms have "dir = butlast dir @ [CHR ''/'']"
    by (metis append_butlast_last_id)
  then have "dir @ file = butlast dir @ CHR ''/'' # file"
    by (metis append.assoc append_Cons append_Nil)
  with True assms show ?thesis by (auto simp: path_join_def)
next
  case False
  with assms show ?thesis by (auto simp: path_join_def)
qed

lemma last_component:
  assumes "file \<noteq> []" "CHR ''/'' \<notin> set file"
  shows "rev (takeWhile (\<lambda>c. c \<noteq> CHR ''/'')
           (dropWhile (\<lambda>c. c = CHR ''/'') (rev (pre @ CHR ''/'' # file)))) = file"
proof -
  from assms obtain c cs where rf: "rev file = c # cs" and c: "c \<noteq> CHR ''/''"
    by (cases "rev file") (auto simp: in_set_conv_decomp)
  have r: "rev (pre @ CHR ''/'' # file) = rev file @ CHR ''/'' # rev pre"
    by simp
  have d: "dropWhile (\<lambda>c. c = CHR ''/'') (rev file @ CHR ''/'' # rev pre) = rev file @ CHR ''/'' # rev pre"
    using rf c by simp
  have "takeWhile (\<lambda>c. c \<noteq> CHR ''/'') (rev file @ CHR ''/'' # rev pre) =
          takeWhile (\<lambda>c. c \<noteq> CHR ''/'') (rev file)"
    by (rule takeWhile_tail) simp
  also have "\<dots> = rev file"
    using assms by auto
  finally show ?thesis
    by (simp only: r d rev_rev_ident)
qed


lemma length_getPostsDirectory: "27 \<le> length (getPostsDirectory fs loc)"
proof -
  have "length CONTENT_BASE_PATH = 27" by (simp add: CONTENT_BASE_PATH_def)
  moreover have "length b \<le> length (path_join a b)" for a b :: string
    by (simp add: path_join_def)
  ultimately have "27 \<le> length (path_join (cwd fs) CONTENT_BASE_PATH)"
    by metis
  also have "\<dots> \<le> length (getPostsDirectory fs loc)"
    unfolding getPostsDirectory_def by (rule length_path_join)
  finally show ?thesis .
qed

lemma basename_post_file:
  assumes "endsWith file ''.mdx''" "CHR ''/'' \<notin> set file"
  shows "basename (path_join (getPostsDirectory fs loc) file) ''.mdx'' =
           (if file = ''.mdx'' then file else take (length file - length ''.mdx'') file)"
proof -
  let ?dir = "getPostsDirectory fs loc"
  from assms have ne: "file \<noteq> []" by (auto simp: endsWith_def)
  have dne: "?dir \<noteq> []" using length_getPostsDirectory [of fs loc] by auto
  from path_join_shape [OF ne dne] obtain pre where pj: "path_join ?dir file = pre @ CHR ''/'' # file"
    by blast
  have "length ?dir \<le> length (path_join ?dir file)" by (rule length_path_join)
  with length_getPostsDirectory [of fs loc] have "path_join ?dir file \<noteq> ''.mdx''"
    by auto
  then have far: "(path_join ?dir file = ''.mdx'') = False"
    by simp
  have nm: "rev (takeWhile (\<lambda>c. c \<noteq> CHR ''/'')
              (dropWhile (\<lambda>c. c = CHR ''/'') (rev (path_join ?dir file)))) = file"
    unfolding pj by (rule last_component [OF ne assms(2)])
  show ?thesis
    unfolding basename_def nm Let_def far using assms(1) by simp
qed

section \<open>The sample content, evaluated\<close>

lemmas sample_fs_defs =
  sample_fs_def odd_fs_def dot_fs_def sample_root_def getPostsDirectory_def path_join_def
  CONTENT_BASE_PATH_def

lemmas sample_text_defs =
  januaryText_def laterText_def summerText_def brokenText_def garbledText_def oddText_def

lemmas sample_parse_defs =
  parsePostFile_def readFileSync_def sample_library_def sample_matter_def
  sample_validateFrontmatter_def REQUIRED_FIELDS_def frontmatterOf_def basename_def endsWith_def

lemma sample_dir_en:
  "nodes sample_fs (getPostsDirectory sample_fs ''en'') =
     Some (Dir [''README.txt'', ''january.mdx'', ''later.mdx'', ''summer.mdx''])"
  by (simp add: sample_fs_defs)


lemma sample_dir_ja: "nodes sample_fs (getPostsDirectory sample_fs ''ja'') = None"
  by (simp add: sample_fs_defs)

lemma odd_dir_en:
  "nodes odd_fs (getPostsDirectory odd_fs ''en'') = Some (Dir [''odd.mdx'', ''summer.mdx''])"
  by (simp add: sample_fs_defs)


lemma sample_files_en:
  "postFiles sample_fs ''en'' [''README.txt'', ''january.mdx'', ''later.mdx'', ''summer.mdx''] =
     [sample_root @ ''/en/january.mdx'', sample_root @ ''/en/later.mdx'', sample_root @ ''/en/summer.mdx'']"
  by (simp add: postFiles_def endsWith_def sample_fs_defs)


lemma odd_files_en:
  "postFiles odd_fs ''en'' [''odd.mdx'', ''summer.mdx''] =
     [sample_root @ ''/en/odd.mdx'', sample_root @ ''/en/summer.mdx'']"
  by (simp add: postFiles_def endsWith_def sample_fs_defs)


lemma sample_parse_en_january:
  "parsePostFile sample_library sample_fs (sample_root @ ''/en/january.mdx'') ''en'' =
     (Some (januaryPost ''en''), [])"
  by (simp add: sample_parse_defs sample_fs_def sample_root_def sample_text_defs
      januaryPost_def samplePost_def)

lemma sample_parse_en_later:
  "parsePostFile sample_library sample_fs (sample_root @ ''/en/later.mdx'') ''en'' =
     (Some (laterPost ''en''), [])"
  by (simp add: sample_parse_defs sample_fs_def sample_root_def sample_text_defs
      laterPost_def samplePost_def)

lemma sample_parse_en_summer:
  "parsePostFile sample_library sample_fs (sample_root @ ''/en/summer.mdx'') ''en'' =
     (Some (summerPost ''en''), [])"
  by (simp add: sample_parse_defs sample_fs_def sample_root_def sample_text_defs
      summerPost_def samplePost_def)


lemma sample_parse_es_summer:
  "parsePostFile sample_library sample_fs (sample_root @ ''/es/summer.mdx'') ''es'' =
     (Some (summerPost ''es''), [])"
  by (simp add: sample_parse_defs sample_fs_def sample_root_def sample_text_defs
      summerPost_def samplePost_def)



lemma odd_parse_en_odd:
  "parsePostFile sample_library odd_fs (sample_root @ ''/en/odd.mdx'') ''en'' =
     (Some (oddPost ''en''), [])"
  by (simp add: sample_parse_defs odd_fs_def sample_root_def sample_text_defs
      oddPost_def samplePost_def)

lemma odd_parse_en_summer:
  "parsePostFile sample_library odd_fs (sample_root @ ''/en/summer.mdx'') ''en'' =
     (Some (summerPost ''en''), [])"
  by (simp add: sample_parse_defs odd_fs_def sample_root_def sample_text_defs
      summerPost_def samplePost_def)



lemma sample_ok_en:
  "fileOk sample_library sample_fs (sample_root @ ''/en/january.mdx'')"
  "fileOk sample_library sample_fs (sample_root @ ''/en/later.mdx'')"
  "fileOk sample_library sample_fs (sample_root @ ''/en/summer.mdx'')"
  unfolding parsePostFile_Some_iff [of sample_library sample_fs _ "''en''", symmetric]
  by (simp_all only: sample_parse_en_january sample_parse_en_later
      sample_parse_en_summer fst_conv not_not option.distinct not_False_eq_True)

lemma odd_ok_en:
  "fileOk sample_library odd_fs (sample_root @ ''/en/odd.mdx'')"
  "fileOk sample_library odd_fs (sample_root @ ''/en/summer.mdx'')"
  unfolding parsePostFile_Some_iff [of sample_library odd_fs _ "''en''", symmetric]
  by (simp_all only: odd_parse_en_odd odd_parse_en_summer fst_conv not_not option.distinct
      not_False_eq_True)


lemmas parsed_eval =
  parsedPosts_def readdirSync_def option.case node.case sum.case
  filter.simps list.map fst_conv option.sel if_True if_False


lemma sample_parsed_en:
  "parsedPosts sample_library sample_fs ''en'' = [januaryPost ''en'', laterPost ''en'', summerPost ''en'']"
  by (simp only: parsed_eval sample_dir_en sample_files_en sample_ok_en
      sample_parse_en_january sample_parse_en_later sample_parse_en_summer)

lemma odd_parsed_en:
  "parsedPosts sample_library odd_fs ''en'' = [oddPost ''en'', summerPost ''en'']"
  by (simp only: parsed_eval odd_dir_en odd_files_en odd_ok_en odd_parse_en_odd odd_parse_en_summer)



lemma sample_sorted_en:
  "sortPostsByDate sample_timeOf [januaryPost ''en'', laterPost ''en'', summerPost ''en'']
     = Inr [januaryPost ''en'', laterPost ''en'', summerPost ''en'']"
  by (simp add: sort_eval_defs sample_post_defs)

lemma odd_sorted_en:
  "sortPostsByDate sample_timeOf [oddPost ''en'', summerPost ''en''] = Inl TypeError"
  by (simp add: sort_eval_defs sample_post_defs)


lemmas run_eval = list.map snd_conv concat.simps append_Nil append_Cons


lemma sample_run_en:
  "getBlogPosts sample_library sample_timeOf sample_fs ''en'' =
     ([], Inr [januaryPost ''en'', laterPost ''en'', summerPost ''en''])"
  by (simp only: getBlogPosts_Dir [OF sample_dir_en] sample_parsed_en sample_sorted_en sample_files_en
      sample_parse_en_january sample_parse_en_later sample_parse_en_summer run_eval)

lemma odd_run_en:
  "getBlogPosts sample_library sample_timeOf odd_fs ''en'' = ([], Inl TypeError)"
  by (simp only: getBlogPosts_Dir [OF odd_dir_en] odd_parsed_en odd_sorted_en odd_files_en
      odd_parse_en_odd odd_parse_en_summer run_eval)


lemma basename_dotfile:
  "basename (path_join (getPostsDirectory fs loc) ''.mdx'') ''.mdx'' = ''.mdx''"
  using basename_post_file [of "''.mdx''" fs loc] by (simp add: endsWith_def)

lemma basename_postPath:
  assumes "postSlug \<noteq> []" "CHR ''/'' \<notin> set postSlug"
  shows "basename (postPath fs loc postSlug) ''.mdx'' = postSlug"
proof -
  have e: "endsWith (postSlug @ ''.mdx'') ''.mdx''"
    by (simp add: endsWith_def)
  have n: "CHR ''/'' \<notin> set (postSlug @ ''.mdx'')"
    using assms(2) by simp
  from assms(1) have d: "postSlug @ ''.mdx'' \<noteq> ''.mdx''"
    by simp
  show ?thesis
    unfolding postPath_def basename_post_file [OF e n] using d by simp
qed


lemma getBlogPosts_skips_failed_files:
  assumes "nodes fs (getPostsDirectory fs loc) = Some (Dir entries)"
  shows "map diagnosticPath (fst (getBlogPosts lib timeOf fs loc)) =
           filter (\<lambda>filePath. \<not> fileOk lib fs filePath) (postFiles fs loc entries)"
    and "snd (getBlogPosts lib timeOf fs loc) = Inr posts \<Longrightarrow>
           mset posts =
             mset (map (\<lambda>filePath. the (fst (parsePostFile lib fs filePath loc)))
                    (filter (fileOk lib fs) (postFiles fs loc entries)))"
    and "\<forall>p\<in>set (parsedPosts lib fs loc). convertible timeOf p \<Longrightarrow>
           \<exists>posts. snd (getBlogPosts lib timeOf fs loc) = Inr posts"
proof -
  show "map diagnosticPath (fst (getBlogPosts lib timeOf fs loc)) =
           filter (\<lambda>filePath. \<not> fileOk lib fs filePath) (postFiles fs loc entries)"
    by (simp only: getBlogPosts_Dir [OF assms] fst_conv logged_paths)
  have p: "parsedPosts lib fs loc =
          map (\<lambda>filePath. the (fst (parsePostFile lib fs filePath loc)))
            (filter (fileOk lib fs) (postFiles fs loc entries))"
    using assms by (simp add: parsedPosts_def readdirSync_def)
  show "mset posts =
             mset (map (\<lambda>filePath. the (fst (parsePostFile lib fs filePath loc)))
                    (filter (fileOk lib fs) (postFiles fs loc entries)))"
    if "snd (getBlogPosts lib timeOf fs loc) = Inr posts"
  proof -
    from that have "array_sort (compareFn timeOf) (parsedPosts lib fs loc) = Inr posts"
      by (simp only: getBlogPosts_Dir [OF assms] snd_conv sortPostsByDate_def)
    from array_sort_mset [OF this] show ?thesis by (simp only: p)
  qed
  show "\<exists>posts. snd (getBlogPosts lib timeOf fs loc) = Inr posts"
    if "\<forall>p\<in>set (parsedPosts lib fs loc). convertible timeOf p"
  proof -
    from that have "returnsOn (compareFn timeOf) (set (parsedPosts lib fs loc))"
      by (rule compareFn_returns)
    from array_sort_returns [OF this] show ?thesis
      by (simp only: getBlogPosts_Dir [OF assms] snd_conv sortPostsByDate_def)
  qed
qed

lemma getBlogPosts_sorted_when_dates_parse:
  assumes "getBlogPosts lib timeOf fs loc = (log, Inr posts)"
    and "\<forall>p\<in>set posts. validDate timeOf p"
  shows "sorted_wrt (dateGe timeOf) posts"
proof -
  from getBlogPosts_set [OF assms(1)] assms(2)
  have v: "\<forall>p\<in>set (parsedPosts lib fs loc). validDate timeOf p" by simp
  from array_sort_sorted [OF compareFn_keyed [OF v]] getBlogPosts_result [OF assms(1)]
  have "descending (timeValue timeOf) posts"
    by (auto simp: sortPostsByDate_def)
  with assms(2) show ?thesis by (intro descending_dateGe)
qed


section \<open>The claims about getBlogPosts and getBlogPost\<close>

text \<open>
  Claim C5. For every locale whose content directory does not exist in the snapshot of
  the file system, \<open>getBlogPosts\<close> returns an empty array and raises no error; it logs
  nothing either.
\<close>

theorem getBlogPosts_missing_directory:
  assumes "\<not> existsSync fs (getPostsDirectory fs loc)"
  shows "getBlogPosts lib timeOf fs loc = ([], Inr [])"
  using assms by (simp add: getBlogPosts_def)

theorem getBlogPosts_missing_directory_witness:
  "\<not> existsSync sample_fs (getPostsDirectory sample_fs ''ja'')
   \<and> getBlogPosts sample_library sample_timeOf sample_fs ''ja'' = ([], Inr [])"
proof -
  have absent: "\<not> existsSync sample_fs (getPostsDirectory sample_fs ''ja'')"
    by (simp add: existsSync_def sample_dir_ja)
  from getBlogPosts_missing_directory [OF absent] absent show ?thesis by simp
qed

text \<open>
  Claim C6. For every locale directory with valid and invalid content files,
  \<open>getBlogPosts\<close> returns exactly the records of the files that parse and pass the
  frontmatter validation, each failing file is skipped with a diagnostic, and no exception
  reaches the caller. The skipping and the logging hold
  (\<open>getBlogPosts_skips_failed_files\<close> above); the last part fails. In the folder below,
  both files can be read, \<open>matter\<close> accepts them and they pass the validation; the
  \<open>publishedAt\<close> of \<open>odd.mdx\<close> is a mapping with a key \<open>toString\<close>. The comparator of
  the sort, outside every \<open>try\<close> block, passes it to the \<open>Date\<close> constructor, which throws
  \<open>TypeError\<close>, and \<open>getBlogPosts\<close> throws it on.
\<close>

theorem getBlogPosts_throws_at_object_date:
  "nodes odd_fs (getPostsDirectory odd_fs ''en'') = Some (Dir [''odd.mdx'', ''summer.mdx''])
   \<and> fileOk sample_library odd_fs (sample_root @ ''/en/odd.mdx'')
   \<and> fileOk sample_library odd_fs (sample_root @ ''/en/summer.mdx'')
   \<and> getBlogPosts sample_library sample_timeOf odd_fs ''en'' = ([], Inl TypeError)"
  using odd_dir_en odd_ok_en odd_run_en by (intro conjI)

text \<open>
  Claim C7. For every locale the array that \<open>getBlogPosts\<close> returns is \<open>sortPostsByDate\<close>
  of the records parsed, that is, always sorted by \<open>publishedAt\<close> descending, newest
  first. With every date parsing it is sorted (\<open>getBlogPosts_sorted_when_dates_parse\<close>
  above). It is not when a date does not parse: the English sample folder holds a post
  published \<open>"soon"\<close>, listed between one of January and one of June 2024. Every
  comparison with it gives \<open>NaN\<close>, the sort moves nothing, and the post of January is
  returned before the post of June.
\<close>

theorem getBlogPosts_unsorted_at_unparseable_date:
  "getBlogPosts sample_library sample_timeOf sample_fs ''en'' =
     ([], Inr [januaryPost ''en'', laterPost ''en'', summerPost ''en''])
   \<and> sample_timeOf (publishedAt (januaryPost ''en'')) = Inr (Some 1704067200000)
   \<and> sample_timeOf (publishedAt (laterPost ''en'')) = Inr None
   \<and> sample_timeOf (publishedAt (summerPost ''en'')) = Inr (Some 1717200000000)
   \<and> \<not> dateGe sample_timeOf (januaryPost ''en'') (laterPost ''en'')
   \<and> \<not> dateGe sample_timeOf (januaryPost ''en'') (summerPost ''en'')"
proof (intro conjI)
  show "getBlogPosts sample_library sample_timeOf sample_fs ''en'' =
     ([], Inr [januaryPost ''en'', laterPost ''en'', summerPost ''en''])"
    by (rule sample_run_en)
qed (simp_all add: dateGe_def sample_post_defs)





text \<open>
  Claim C4. \<open>getBlogPost(slug, locale)\<close> returns the record parsed from the requested
  locale's directory, with its \<open>locale\<close> field set to the requested locale, when a file
  for the slug exists there; otherwise the record parsed from the default locale's
  directory, with \<open>locale\<close> set to the default locale, when the file exists there; and
  \<open>null\<close> when the slug exists in neither directory. A record returned carries the locale
  of the directory it came from and the slug asked for.
\<close>

theorem getBlogPost_locale_fallback:
  "(postExists fs loc postSlug \<longrightarrow>
      getBlogPost lib fs postSlug loc =
        map_option (\<lambda>post. post\<lparr>postLocale := loc\<rparr>)
          (fst (parsePostFile lib fs (postPath fs loc postSlug) loc)))
   \<and> (\<not> postExists fs loc postSlug \<and> postExists fs DEFAULT_LOCALE postSlug \<longrightarrow>
      getBlogPost lib fs postSlug loc =
        map_option (\<lambda>post. post\<lparr>postLocale := DEFAULT_LOCALE\<rparr>)
          (fst (parsePostFile lib fs (postPath fs DEFAULT_LOCALE postSlug) DEFAULT_LOCALE)))
   \<and> (\<not> postExists fs loc postSlug \<and> \<not> postExists fs DEFAULT_LOCALE postSlug \<longrightarrow>
      getBlogPost lib fs postSlug loc = None)
   \<and> (\<forall>post. getBlogPost lib fs postSlug loc = Some post \<longrightarrow>
        postLocale post = (if postExists fs loc postSlug then loc else DEFAULT_LOCALE)
        \<and> (postSlug \<noteq> [] \<and> CHR ''/'' \<notin> set postSlug \<longrightarrow> slug post = postSlug))"
proof (intro conjI allI impI)
  fix post
  assume r: "getBlogPost lib fs postSlug loc = Some post"
  then show "postLocale post = (if postExists fs loc postSlug then loc else DEFAULT_LOCALE)"
    by (auto simp: getBlogPost_def split: if_splits)
  assume ok: "postSlug \<noteq> [] \<and> CHR ''/'' \<notin> set postSlug"
  from r obtain l q where q: "fst (parsePostFile lib fs (postPath fs l postSlug) l) = Some q"
    and pq: "post = q\<lparr>postLocale := l\<rparr>"
    by (auto simp: getBlogPost_def split: if_splits)
  from parsePostFile_fields [OF q] have "slug q = basename (postPath fs l postSlug) ''.mdx''"
    by simp
  with ok pq show "slug post = postSlug"
    by (simp add: basename_postPath)
qed (simp_all add: getBlogPost_def)

theorem getBlogPost_locale_fallback_witness:
  "postExists sample_fs ''es'' ''summer''
   \<and> getBlogPost sample_library sample_fs ''summer'' ''es'' = Some (summerPost ''es'')
   \<and> \<not> postExists sample_fs ''ja'' ''summer'' \<and> postExists sample_fs DEFAULT_LOCALE ''summer''
   \<and> getBlogPost sample_library sample_fs ''summer'' ''ja'' = Some (summerPost ''en'')
   \<and> \<not> postExists sample_fs ''ja'' ''winter'' \<and> \<not> postExists sample_fs DEFAULT_LOCALE ''winter''
   \<and> getBlogPost sample_library sample_fs ''winter'' ''ja'' = None"
proof -
  have p_es: "postPath sample_fs ''es'' ''summer'' = sample_root @ ''/es/summer.mdx''"
    and p_en: "postPath sample_fs ''en'' ''summer'' = sample_root @ ''/en/summer.mdx''"
    by (simp_all add: postPath_def sample_fs_defs)
  have e1: "postExists sample_fs ''es'' ''summer''"
    and e2: "\<not> postExists sample_fs ''ja'' ''summer''"
    and e3: "postExists sample_fs DEFAULT_LOCALE ''summer''"
    and e4: "\<not> postExists sample_fs ''ja'' ''winter''"
    and e5: "\<not> postExists sample_fs DEFAULT_LOCALE ''winter''"
    by (simp_all add: postExists_def existsSync_def postPath_def DEFAULT_LOCALE_def sample_fs_defs)
  have en: "DEFAULT_LOCALE = ''en''"
    by (simp add: DEFAULT_LOCALE_def)
  from getBlogPost_locale_fallback [of sample_fs "''es''" "''summer''" sample_library] e1
  have "getBlogPost sample_library sample_fs ''summer'' ''es'' =
          map_option (\<lambda>post. post\<lparr>postLocale := ''es''\<rparr>)
            (fst (parsePostFile sample_library sample_fs (postPath sample_fs ''es'' ''summer'') ''es''))"
    by blast
  then have r1: "getBlogPost sample_library sample_fs ''summer'' ''es'' = Some (summerPost ''es'')"
    by (simp add: p_es sample_parse_es_summer summerPost_def samplePost_def)
  from getBlogPost_locale_fallback [of sample_fs "''ja''" "''summer''" sample_library] e2 e3
  have "getBlogPost sample_library sample_fs ''summer'' ''ja'' =
          map_option (\<lambda>post. post\<lparr>postLocale := DEFAULT_LOCALE\<rparr>)
            (fst (parsePostFile sample_library sample_fs (postPath sample_fs DEFAULT_LOCALE ''summer'')
               DEFAULT_LOCALE))"
    by blast
  then have r2: "getBlogPost sample_library sample_fs ''summer'' ''ja'' = Some (summerPost ''en'')"
    by (simp add: p_en en sample_parse_en_summer summerPost_def samplePost_def)
  from getBlogPost_locale_fallback [of sample_fs "''ja''" "''winter''" sample_library] e4 e5
  have r3: "getBlogPost sample_library sample_fs ''winter'' ''ja'' = None"
    by blast
  from e1 r1 e2 e3 r2 e4 e5 r3 show ?thesis by (intro conjI)
qed

end
